theory Spec2Isabelle
  imports Complex_Main "HOL-Library.Sublist"
begin

section \<open>Request and result model\<close>

text \<open>
  The enumerations of \<^verbatim>\<open>sql_execution_server.py\<close>, constructor for constructor and in
  the source's order.
\<close>

datatype QueryType =
    SELECT | INSERT | UPDATE | DELETE | CREATE | DROP | ALTER | TRUNCATE
  | BEGIN | COMMIT | ROLLBACK | PRAGMA | EXPLAIN | ATTACH | DETACH | VACUUM | UNKNOWN

datatype IsolationLevel = NONE | DEFERRED | IMMEDIATE | EXCLUSIVE

datatype ExecutionStatus = PENDING | RUNNING | SUCCESS | ERROR | CANCELLED | TIMEOUT

text \<open>\<^verbatim>\<open>IsolationLevel.value\<close>: \<^verbatim>\<open>None\<close> for \<open>NONE\<close>, the mode's name otherwise.\<close>

fun isolation_value :: "IsolationLevel \<Rightarrow> string option" where
  "isolation_value NONE = None"
| "isolation_value DEFERRED = Some ''DEFERRED''"
| "isolation_value IMMEDIATE = Some ''IMMEDIATE''"
| "isolation_value EXCLUSIVE = Some ''EXCLUSIVE''"

text \<open>\<^verbatim>\<open>QueryType.name\<close>, the key of the executor's metrics table.\<close>

fun type_name :: "QueryType \<Rightarrow> string" where
  "type_name SELECT = ''SELECT''"
| "type_name INSERT = ''INSERT''"
| "type_name UPDATE = ''UPDATE''"
| "type_name DELETE = ''DELETE''"
| "type_name CREATE = ''CREATE''"
| "type_name DROP = ''DROP''"
| "type_name ALTER = ''ALTER''"
| "type_name TRUNCATE = ''TRUNCATE''"
| "type_name BEGIN = ''BEGIN''"
| "type_name COMMIT = ''COMMIT''"
| "type_name ROLLBACK = ''ROLLBACK''"
| "type_name PRAGMA = ''PRAGMA''"
| "type_name EXPLAIN = ''EXPLAIN''"
| "type_name ATTACH = ''ATTACH''"
| "type_name DETACH = ''DETACH''"
| "type_name VACUUM = ''VACUUM''"
| "type_name UNKNOWN = ''UNKNOWN''"

text \<open>
  Bind parameters and row entries are SQLite values. A row is the tuple the driver
  returns, \<^verbatim>\<open>metadata\<close> is echoed as it is.
\<close>

datatype sql_value = SqlNull | SqlInt int | SqlReal real | SqlText string | SqlBlob "nat list"

type_synonym row = "sql_value list"

record QueryRequest =
  sql :: string
  params :: "sql_value list"
  query_id :: string
  timeout :: "real option"
  isolation_level :: IsolationLevel
  read_only :: bool
  row_limit :: "int option"
  fetch_size :: int
  metadata :: "(string \<times> sql_value) list"

text \<open>
  The dataclass defaults: a request built from its \<^verbatim>\<open>sql\<close> alone. \<open>uuid\<close> is what
  \<^verbatim>\<open>uuid.uuid4().hex\<close> returns for \<^verbatim>\<open>query_id\<close>.
\<close>

definition new_QueryRequest :: "string \<Rightarrow> string \<Rightarrow> QueryRequest" where
  "new_QueryRequest sql_text uuid =
     \<lparr>sql = sql_text, params = [], query_id = uuid, timeout = None,
      isolation_level = DEFERRED, read_only = False, row_limit = None, fetch_size = 1000,
      metadata = []\<rparr>"

record QueryResult =
  result_query_id :: string
  status :: ExecutionStatus
  rows :: "row list"
  columns :: "string list"
  row_count :: int
  affected_rows :: int
  last_row_id :: "int option"
  execution_time :: real
  query_type :: QueryType
  error :: "string option"
  warnings :: "string list"
  result_metadata :: "(string \<times> sql_value) list"

text \<open>
  Exceptions are values. \<open>DriverError\<close> stands for any other subclass of
  \<^verbatim>\<open>Exception\<close> that the database driver raises, with its message.
  \<open>CancelledError\<close> is \<^verbatim>\<open>asyncio.CancelledError\<close>, which an \<^verbatim>\<open>await\<close> raises in a
  task that is being cancelled; it derives from \<^verbatim>\<open>BaseException\<close> and not from
  \<^verbatim>\<open>Exception\<close>, which \<open>is_Exception\<close> records. A call either returns, raises, or
  (waiting for a connection that never comes) blocks for ever.
\<close>

datatype exn =
    QueryCancelledException
  | TimeoutError
  | ConnectionPoolExhausted string
  | ValueError string
  | DriverError string
  | CancelledError

fun exn_str :: "exn \<Rightarrow> string" where
  "exn_str QueryCancelledException = []"
| "exn_str TimeoutError = []"
| "exn_str (ConnectionPoolExhausted msg) = msg"
| "exn_str (ValueError msg) = msg"
| "exn_str (DriverError msg) = msg"
| "exn_str CancelledError = []"

fun is_Exception :: "exn \<Rightarrow> bool" where
  "is_Exception CancelledError = False"
| "is_Exception e = True"

datatype 'a outcome = Returned 'a | Raised exn | Blocked

section \<open>Strings and the regular expressions of QueryAnalyzer\<close>

text \<open>
  A Python \<^verbatim>\<open>str\<close> is modelled as a \<^typ>\<open>string\<close>; the character \<open>c\<close> stands for the
  code point \<open>of_char c\<close>, so the model covers the strings over U+0000..U+00FF. The
  three character predicates below are Python's on that range:
  \<^verbatim>\<open>str.isspace\<close> (used by \<^verbatim>\<open>str.strip()\<close> and by \<^verbatim>\<open>\s\<close>), the word characters of
  \<^verbatim>\<open>\w\<close> and \<^verbatim>\<open>\b\<close> (alphanumeric or underscore), and the lower-casing that
  \<^verbatim>\<open>re.I\<close> compares under.
\<close>

definition py_isspace :: "char \<Rightarrow> bool" where
  "py_isspace c =
     (let n = of_char c :: nat
      in (9 \<le> n \<and> n \<le> 13) \<or> (28 \<le> n \<and> n \<le> 32) \<or> n = 133 \<or> n = 160)"

definition py_isword :: "char \<Rightarrow> bool" where
  "py_isword c =
     (let n = of_char c :: nat
      in (48 \<le> n \<and> n \<le> 57) \<or> (65 \<le> n \<and> n \<le> 90) \<or> n = 95 \<or> (97 \<le> n \<and> n \<le> 122)
         \<or> n = 170 \<or> n = 178 \<or> n = 179 \<or> n = 181 \<or> n = 185 \<or> n = 186
         \<or> (188 \<le> n \<and> n \<le> 190) \<or> (192 \<le> n \<and> n \<le> 214)
         \<or> (216 \<le> n \<and> n \<le> 246) \<or> 248 \<le> n)"

definition py_lower :: "char \<Rightarrow> char" where
  "py_lower c =
     (let n = of_char c :: nat
      in if (65 \<le> n \<and> n \<le> 90) \<or> (192 \<le> n \<and> n \<le> 214) \<or> (216 \<le> n \<and> n \<le> 222)
         then char_of (n + 32) else c)"

text \<open>\<^verbatim>\<open>str.strip()\<close>: leading and trailing whitespace removed.\<close>

definition strip :: "string \<Rightarrow> string" where
  "strip s = rev (dropWhile py_isspace (rev (dropWhile py_isspace s)))"

text \<open>
  The patterns of the source use five constructs only: a literal character (compared
  case-insensitively, every pattern being compiled with \<^verbatim>\<open>re.I\<close>), \<^verbatim>\<open>^\<close>,
  \<^verbatim>\<open>\s*\<close>, \<^verbatim>\<open>\s+\<close> and \<^verbatim>\<open>\b\<close>. A pattern is the list of its atoms.
\<close>

datatype re_atom = Lit char | Bol | SpaceStar | SpacePlus | WordBoundary

text \<open>Whether the character before or after a position is a word character; no
  character (the ends of the string) counts as a non-word character.\<close>

fun word_at :: "char option \<Rightarrow> bool" where
  "word_at None = False"
| "word_at (Some c) = py_isword c"

fun next_char :: "string \<Rightarrow> char option" where
  "next_char [] = None"
| "next_char (x # xs) = Some x"

text \<open>
  \<open>re_from prev p s\<close>: the pattern \<open>p\<close> matches at the position of the subject whose
  remaining text is \<open>s\<close> and whose preceding character is \<open>prev\<close> (\<open>None\<close> at the start of
  the subject). The matcher explores every split of \<^verbatim>\<open>\s*\<close>, as the backtracking
  engine does.
\<close>

fun re_from :: "char option \<Rightarrow> re_atom list \<Rightarrow> string \<Rightarrow> bool" where
  "re_from prev [] s = True"
| "re_from prev (Lit c # p) [] = False"
| "re_from prev (Lit c # p) (x # xs) = (py_lower x = py_lower c \<and> re_from (Some x) p xs)"
| "re_from prev (Bol # p) s = (prev = None \<and> re_from prev p s)"
| "re_from prev (WordBoundary # p) s =
     (word_at prev \<noteq> word_at (next_char s) \<and> re_from prev p s)"
| "re_from prev (SpaceStar # p) [] = re_from prev p []"
| "re_from prev (SpaceStar # p) (x # xs) =
     (re_from prev p (x # xs) \<or> (py_isspace x \<and> re_from (Some x) (SpaceStar # p) xs))"
| "re_from prev (SpacePlus # p) [] = False"
| "re_from prev (SpacePlus # p) (x # xs) =
     (py_isspace x \<and> re_from (Some x) (SpaceStar # p) xs)"

text \<open>\<^verbatim>\<open>pattern.match(s)\<close> tries the start of the subject only;
  \<^verbatim>\<open>pattern.search(s)\<close> tries every position, the end of the subject included.\<close>

definition re_match :: "re_atom list \<Rightarrow> string \<Rightarrow> bool" where
  "re_match p s = re_from None p s"

fun re_search_from :: "char option \<Rightarrow> re_atom list \<Rightarrow> string \<Rightarrow> bool" where
  "re_search_from prev p [] = re_from prev p []"
| "re_search_from prev p (x # xs) = (re_from prev p (x # xs) \<or> re_search_from (Some x) p xs)"

definition re_search :: "re_atom list \<Rightarrow> string \<Rightarrow> bool" where
  "re_search p s = re_search_from None p s"

section \<open>QueryAnalyzer\<close>

text \<open>\<^verbatim>\<open>r'^\s*KEYWORD\b'\<close>, the shape of every entry of \<^verbatim>\<open>_QUERY_PATTERNS\<close>.\<close>

definition keyword_pattern :: "string \<Rightarrow> re_atom list" where
  "keyword_pattern kw = [Bol, SpaceStar] @ map Lit kw @ [WordBoundary]"

definition QUERY_PATTERNS :: "(re_atom list \<times> QueryType) list" where
  "QUERY_PATTERNS =
    [(keyword_pattern ''SELECT'', SELECT),
     (keyword_pattern ''INSERT'', INSERT),
     (keyword_pattern ''UPDATE'', UPDATE),
     (keyword_pattern ''DELETE'', DELETE),
     (keyword_pattern ''CREATE'', CREATE),
     (keyword_pattern ''DROP'', DROP),
     (keyword_pattern ''ALTER'', ALTER),
     (keyword_pattern ''TRUNCATE'', TRUNCATE),
     (keyword_pattern ''BEGIN'', BEGIN),
     (keyword_pattern ''COMMIT'', COMMIT),
     (keyword_pattern ''ROLLBACK'', ROLLBACK),
     (keyword_pattern ''PRAGMA'', PRAGMA),
     (keyword_pattern ''EXPLAIN'', EXPLAIN),
     (keyword_pattern ''ATTACH'', ATTACH),
     (keyword_pattern ''DETACH'', DETACH),
     (keyword_pattern ''VACUUM'', VACUUM)]"

text \<open>The loop of \<^verbatim>\<open>determine_type\<close>: the first pattern that matches decides.\<close>

fun first_match :: "(re_atom list \<times> QueryType) list \<Rightarrow> string \<Rightarrow> QueryType" where
  "first_match [] s = UNKNOWN"
| "first_match ((p, qt) # ps) s = (if re_match p s then qt else first_match ps s)"

definition determine_type :: "string \<Rightarrow> QueryType" where
  "determine_type sql_text =
     (let sql_stripped = strip sql_text in first_match QUERY_PATTERNS sql_stripped)"

text \<open>
  \<^verbatim>\<open>_DANGEROUS_PATTERNS\<close>: each entry with its source text (\<^verbatim>\<open>pattern.pattern\<close>, which
  the warning quotes) and its atoms.
\<close>

definition backslash :: char where
  "backslash = CHR 0x5C"

definition stacking_pattern :: "string \<Rightarrow> string \<times> re_atom list" where
  "stacking_pattern kw =
     ('';'' @ [backslash] @ ''s*'' @ kw @ [backslash] @ ''b'',
      [Lit (CHR '';''), SpaceStar] @ map Lit kw @ [WordBoundary])"

definition DANGEROUS_PATTERNS :: "(string \<times> re_atom list) list" where
  "DANGEROUS_PATTERNS =
    [stacking_pattern ''DROP'',
     stacking_pattern ''DELETE'',
     stacking_pattern ''UPDATE'',
     stacking_pattern ''INSERT'',
     stacking_pattern ''CREATE'',
     stacking_pattern ''ALTER'',
     (''--'', map Lit ''--''),
     (''/'' @ [backslash] @ ''*'', map Lit ''/*''),
     (''UNION'' @ [backslash] @ ''s+SELECT'', map Lit ''UNION'' @ [SpacePlus] @ map Lit ''SELECT''),
     (''INTO'' @ [backslash] @ ''s+OUTFILE'', map Lit ''INTO'' @ [SpacePlus] @ map Lit ''OUTFILE''),
     (''LOAD_FILE'', map Lit ''LOAD_FILE'')]"

definition danger_warning :: "string \<Rightarrow> string" where
  "danger_warning pattern_text = ''Potentially dangerous pattern detected: '' @ pattern_text"

definition length_warning :: string where
  "length_warning = ''Query exceeds recommended length''"

text \<open>The loop over \<^verbatim>\<open>_DANGEROUS_PATTERNS\<close>, appending to \<^verbatim>\<open>warnings\<close>.\<close>

fun scan_patterns :: "(string \<times> re_atom list) list \<Rightarrow> string \<Rightarrow> string list \<Rightarrow> string list" where
  "scan_patterns [] sql_text ws = ws"
| "scan_patterns ((pattern_text, p) # ps) sql_text ws =
     scan_patterns ps sql_text
       (if re_search p sql_text then ws @ [danger_warning pattern_text] else ws)"

definition validate_security :: "string \<Rightarrow> bool \<Rightarrow> string list" where
  "validate_security sql_text allow_dangerous =
     (let ws = [];
          ws = (if \<not> allow_dangerous then scan_patterns DANGEROUS_PATTERNS sql_text ws else ws);
          ws = (if length sql_text > 100000 then ws @ [length_warning] else ws)
      in ws)"

definition is_read_only :: "QueryType \<Rightarrow> bool" where
  "is_read_only qt = (qt = SELECT \<or> qt = PRAGMA \<or> qt = EXPLAIN)"

section \<open>ConnectionWrapper and ConnectionPool\<close>

text \<open>
  Wrappers are mutable objects compared by identity: the pool holds references
  (natural numbers) into a store of wrapper records, and \<open>next_ref\<close> is the next
  reference to allocate. A wrapper owns one connection, which is named by the wrapper's
  reference. Time is the reading of \<^verbatim>\<open>time.monotonic()\<close>, passed to each operation by
  its caller; the readings inside one atomic operation are taken as one.
  The database is outside the program: \<open>db_log\<close> records the calls issued to the driver,
  in order.
\<close>

record ConnectionWrapper =
  w_in_use :: bool
  created_at :: real
  last_used :: real
  query_count :: nat

datatype db_call =
    Connect nat
  | Execute nat string "sql_value list"
  | FetchMany nat int
  | Commit nat
  | Close nat

record ConnectionPool =
  database :: string
  min_connections :: int
  max_connections :: int
  max_idle_time :: real
  max_connection_age :: real
  pool :: "nat list"
  in_use :: "nat set"
  closed :: bool
  maintenance_task :: bool
  wrappers :: "nat \<Rightarrow> ConnectionWrapper"
  next_ref :: nat
  db_log :: "db_call list"

definition new_ConnectionWrapper :: "real \<Rightarrow> ConnectionWrapper" where
  "new_ConnectionWrapper now = \<lparr>w_in_use = False, created_at = now, last_used = now, query_count = 0\<rparr>"

definition new_ConnectionPool :: "string \<Rightarrow> int \<Rightarrow> int \<Rightarrow> real \<Rightarrow> real \<Rightarrow> ConnectionPool" where
  "new_ConnectionPool db min_conn max_conn idle_limit age_limit =
     \<lparr>database = db, min_connections = min_conn, max_connections = max_conn,
      max_idle_time = idle_limit, max_connection_age = age_limit,
      pool = [], in_use = {}, closed = False, maintenance_task = False,
      wrappers = (\<lambda>r. new_ConnectionWrapper 0), next_ref = 0, db_log = []\<rparr>"

definition mark_in_use :: "ConnectionPool \<Rightarrow> nat \<Rightarrow> real \<Rightarrow> ConnectionPool" where
  "mark_in_use p w now =
     p\<lparr>wrappers := (wrappers p)(w := (wrappers p w)
          \<lparr>w_in_use := True, last_used := now, query_count := query_count (wrappers p w) + 1\<rparr>)\<rparr>"

definition mark_available :: "ConnectionPool \<Rightarrow> nat \<Rightarrow> real \<Rightarrow> ConnectionPool" where
  "mark_available p w now =
     p\<lparr>wrappers := (wrappers p)(w := (wrappers p w)\<lparr>w_in_use := False, last_used := now\<rparr>)\<rparr>"

definition age :: "ConnectionPool \<Rightarrow> nat \<Rightarrow> real \<Rightarrow> real" where
  "age p w now = now - created_at (wrappers p w)"

definition idle_time :: "ConnectionPool \<Rightarrow> nat \<Rightarrow> real \<Rightarrow> real" where
  "idle_time p w now = now - last_used (wrappers p w)"

text \<open>
  \<^verbatim>\<open>_create_connection\<close>: \<^verbatim>\<open>aiosqlite.connect\<close> and four PRAGMA statements, then the
  wrapper. The environment decides whether one of the five driver calls raises:
  \<open>Some (k, e)\<close> makes call number \<open>k\<close> raise \<open>e\<close>.
\<close>

definition connection_setup :: "nat \<Rightarrow> db_call list" where
  "connection_setup r =
     [Connect r,
      Execute r ''PRAGMA journal_mode=WAL'' [],
      Execute r ''PRAGMA synchronous=NORMAL'' [],
      Execute r ''PRAGMA cache_size=10000'' [],
      Execute r ''PRAGMA temp_store=MEMORY'' []]"

definition create_connection ::
  "ConnectionPool \<Rightarrow> real \<Rightarrow> (nat \<times> exn) option \<Rightarrow> ConnectionPool \<times> nat outcome" where
  "create_connection p now failure =
     (let r = next_ref p
      in case failure of
           Some (k, e) \<Rightarrow>
             (p\<lparr>next_ref := Suc r, db_log := db_log p @ take (Suc k) (connection_setup r)\<rparr>,
              Raised e)
         | None \<Rightarrow>
             (p\<lparr>wrappers := (wrappers p)(r := new_ConnectionWrapper now), next_ref := Suc r,
                db_log := db_log p @ connection_setup r\<rparr>,
              Returned r))"

text \<open>\<^verbatim>\<open>initialize\<close>: \<^verbatim>\<open>min_connections\<close> wrappers are created and appended to the idle
  deque; an exception of a creation ends the loop. \<open>failure i\<close> is the environment's
  choice for creation number \<open>i\<close>.\<close>

fun initialize_loop ::
  "nat \<Rightarrow> nat \<Rightarrow> ConnectionPool \<Rightarrow> real \<Rightarrow> (nat \<Rightarrow> (nat \<times> exn) option) \<Rightarrow> ConnectionPool \<times> unit outcome" where
  "initialize_loop 0 i p now failure = (p, Returned ())"
| "initialize_loop (Suc n) i p now failure =
     (case create_connection p now (failure i) of
        (p', Returned conn) \<Rightarrow> initialize_loop n (Suc i) (p'\<lparr>pool := pool p' @ [conn]\<rparr>) now failure
      | (p', Raised e) \<Rightarrow> (p', Raised e)
      | (p', Blocked) \<Rightarrow> (p', Blocked))"

definition initialize ::
  "ConnectionPool \<Rightarrow> real \<Rightarrow> (nat \<Rightarrow> (nat \<times> exn) option) \<Rightarrow> ConnectionPool \<times> unit outcome" where
  "initialize p now failure =
     (case initialize_loop (nat (min_connections p)) 0 p now failure of
        (p', Returned u) \<Rightarrow> (p'\<lparr>maintenance_task := True\<rparr>, Returned ())
      | (p', r) \<Rightarrow> (p', r))"

text \<open>
  One pass through the body of the \<^verbatim>\<open>while True\<close> loop of \<^verbatim>\<open>_acquire_wrapper\<close>, which
  holds the pool's lock: it hands out a wrapper, raises, or goes to wait on the
  condition (with the remaining time when there is a deadline).
\<close>

datatype acquire_step = Got nat | Fail exn | Wait "real option"

definition acquire_attempt ::
  "ConnectionPool \<Rightarrow> real option \<Rightarrow> real \<Rightarrow> (nat \<times> exn) option \<Rightarrow> ConnectionPool \<times> acquire_step" where
  "acquire_attempt p deadline now failure =
     (if closed p then (p, Fail (ConnectionPoolExhausted ''Pool is closed''))
      else case pool p of
        wrapper # idle \<Rightarrow>
          (let p1 = p\<lparr>pool := idle\<rparr>;
               p2 = mark_in_use p1 wrapper now
           in (p2\<lparr>in_use := insert wrapper (in_use p2)\<rparr>, Got wrapper))
      | [] \<Rightarrow>
          if int (card (in_use p)) < max_connections p then
            (case create_connection p now failure of
               (p1, Returned wrapper) \<Rightarrow>
                 (let p2 = mark_in_use p1 wrapper now
                  in (p2\<lparr>in_use := insert wrapper (in_use p2)\<rparr>, Got wrapper))
             | (p1, Raised e) \<Rightarrow> (p1, Fail e)
             | (p1, Blocked) \<Rightarrow> (p1, Wait None))
          else
            (case deadline of
               Some d \<Rightarrow>
                 if d \<noteq> 0 then
                   (let remaining = d - now
                    in if remaining \<le> 0
                       then (p, Fail (ConnectionPoolExhausted ''Timeout waiting for connection''))
                       else (p, Wait (Some remaining)))
                 else (p, Wait None)
             | None \<Rightarrow> (p, Wait None)))"

text \<open>\<^verbatim>\<open>_release_wrapper\<close>. \<open>close_failure\<close> and \<open>create_failure\<close> are the environment's
  choices for \<^verbatim>\<open>connection.close()\<close> and for the replacement's creation.\<close>

definition release_wrapper ::
  "ConnectionPool \<Rightarrow> nat \<Rightarrow> real \<Rightarrow> exn option \<Rightarrow> (nat \<times> exn) option \<Rightarrow> ConnectionPool \<times> unit outcome" where
  "release_wrapper p wrapper now close_failure create_failure =
     (let p1 = mark_available p wrapper now;
          p2 = p1\<lparr>in_use := in_use p1 - {wrapper}\<rparr>
      in if age p2 wrapper now < max_connection_age p2
         then (p2\<lparr>pool := pool p2 @ [wrapper]\<rparr>, Returned ())
         else
           (let p3 = p2\<lparr>db_log := db_log p2 @ [Close wrapper]\<rparr>
            in case close_failure of
                 Some e \<Rightarrow> (p3, Raised e)
               | None \<Rightarrow>
                   if int (length (pool p3)) + int (card (in_use p3)) < min_connections p3
                   then (case create_connection p3 now create_failure of
                           (p4, Returned new_wrapper) \<Rightarrow>
                             (p4\<lparr>pool := pool p4 @ [new_wrapper]\<rparr>, Returned ())
                         | (p4, Raised e) \<Rightarrow> (p4, Raised e)
                         | (p4, Blocked) \<Rightarrow> (p4, Blocked))
                   else (p3, Returned ())))"

text \<open>\<^verbatim>\<open>_cleanup_idle_connections\<close>, the maintenance sweep: the wrappers to remove are
  chosen first (the deque's length is read while nothing has been removed yet), then
  removed and closed one by one.\<close>

fun remove_and_close ::
  "ConnectionPool \<Rightarrow> nat list \<Rightarrow> (nat \<Rightarrow> exn option) \<Rightarrow> ConnectionPool \<times> unit outcome" where
  "remove_and_close p [] close_failure = (p, Returned ())"
| "remove_and_close p (wrapper # to_remove) close_failure =
     (let p1 = p\<lparr>pool := remove1 wrapper (pool p), db_log := db_log p @ [Close wrapper]\<rparr>
      in case close_failure wrapper of
           Some e \<Rightarrow> (p1, Raised e)
         | None \<Rightarrow> remove_and_close p1 to_remove close_failure)"

definition cleanup_idle_connections ::
  "ConnectionPool \<Rightarrow> real \<Rightarrow> (nat \<Rightarrow> exn option) \<Rightarrow> ConnectionPool \<times> unit outcome" where
  "cleanup_idle_connections p now close_failure =
     (let to_remove =
            filter (\<lambda>wrapper.
                (idle_time p wrapper now > max_idle_time p \<or> age p wrapper now > max_connection_age p)
                \<and> int (length (pool p)) > min_connections p)
              (pool p)
      in remove_and_close p to_remove close_failure)"


text \<open>
  The operations that run on a pool, each atomic under the pool's lock, with what the
  environment chooses for it: an attempt to acquire (one pass of the loop), a release,
  a maintenance sweep.
\<close>

datatype pool_op =
    Acquire "real option" real "(nat \<times> exn) option"
  | Release nat real "exn option" "(nat \<times> exn) option"
  | Sweep real "nat \<Rightarrow> exn option"

fun apply_op :: "ConnectionPool \<Rightarrow> pool_op \<Rightarrow> ConnectionPool" where
  "apply_op p (Acquire deadline now failure) = fst (acquire_attempt p deadline now failure)"
| "apply_op p (Release wrapper now close_failure create_failure) =
     fst (release_wrapper p wrapper now close_failure create_failure)"
| "apply_op p (Sweep now close_failure) = fst (cleanup_idle_connections p now close_failure)"

fun run_ops :: "ConnectionPool \<Rightarrow> pool_op list \<Rightarrow> ConnectionPool" where
  "run_ops p [] = p"
| "run_ops p (op # ops) = run_ops (apply_op p op) ops"

text \<open>
  \<^verbatim>\<open>_acquire_wrapper\<close> as a whole. The deadline is computed once, from the clock
  reading \<open>entered\<close> that is taken before the pool's lock is awaited; \<open>now\<close> is the reading
  of the first pass through the loop, taken when the lock is held. Each time the caller
  waits on the condition, the environment's schedule says when it is notified and what
  the other tasks have done to the pool in the meantime; when no notification is left,
  a wait with a timeout ends in \<^verbatim>\<open>asyncio.TimeoutError\<close> (raised by
  \<^verbatim>\<open>asyncio.wait_for\<close>) and a wait without one never ends.
\<close>

definition deadline_of :: "real option \<Rightarrow> real \<Rightarrow> real option" where
  "deadline_of tmo entered =
     (case tmo of None \<Rightarrow> None | Some t \<Rightarrow> if t \<noteq> 0 then Some (entered + t) else None)"

fun acquire_loop ::
  "ConnectionPool \<Rightarrow> real option \<Rightarrow> real \<Rightarrow> (nat \<times> exn) option \<Rightarrow> (real \<times> pool_op list) list
     \<Rightarrow> ConnectionPool \<times> nat outcome" where
  "acquire_loop p deadline now failure [] =
     (case acquire_attempt p deadline now failure of
        (p1, Got wrapper) \<Rightarrow> (p1, Returned wrapper)
      | (p1, Fail e) \<Rightarrow> (p1, Raised e)
      | (p1, Wait (Some remaining)) \<Rightarrow> (p1, Raised TimeoutError)
      | (p1, Wait None) \<Rightarrow> (p1, Blocked))"
| "acquire_loop p deadline now failure ((woken_at, others) # schedule) =
     (case acquire_attempt p deadline now failure of
        (p1, Got wrapper) \<Rightarrow> (p1, Returned wrapper)
      | (p1, Fail e) \<Rightarrow> (p1, Raised e)
      | (p1, Wait remaining) \<Rightarrow> acquire_loop (run_ops p1 others) deadline woken_at failure schedule)"

definition acquire_wrapper ::
  "ConnectionPool \<Rightarrow> real option \<Rightarrow> real \<Rightarrow> real \<Rightarrow> (nat \<times> exn) option
     \<Rightarrow> (real \<times> pool_op list) list \<Rightarrow> ConnectionPool \<times> nat outcome" where
  "acquire_wrapper p tmo entered now failure schedule =
     acquire_loop p (deadline_of tmo entered) now failure schedule"

section \<open>QueryExecutor\<close>

text \<open>
  The driver's cursor after a statement has run: the result schema (the column names of
  \<^verbatim>\<open>cursor.description\<close>, or \<^verbatim>\<open>None\<close>), the rows not fetched yet,
  \<^verbatim>\<open>rowcount\<close> and \<^verbatim>\<open>lastrowid\<close>. \<^verbatim>\<open>fetchmany(size)\<close> returns the next
  \<^verbatim>\<open>size\<close> rows, fewer when fewer are left (for a size below one, which the request model
  excludes, sqlite3 returns all that are left).
\<close>

record cursor =
  description :: "string list option"
  result_rows :: "row list"
  rowcount :: int
  lastrowid :: "int option"

definition fetchmany :: "int \<Rightarrow> row list \<Rightarrow> row list \<times> row list" where
  "fetchmany k pending =
     (if k > 0 then (take (nat k) pending, drop (nat k) pending) else (pending, []))"

text \<open>
  The executor owns the pool, the table of active queries (query id to cancellation
  event) and the metrics. An \<^verbatim>\<open>asyncio.Event\<close> is an object: \<open>events\<close> is the store of
  the flags, \<open>next_event\<close> the next event to allocate.
\<close>

record QueryExecutor =
  executor_pool :: ConnectionPool
  active_queries :: "string \<rightharpoonup> nat"
  events :: "nat \<Rightarrow> bool"
  next_event :: nat
  query_metrics :: "string \<Rightarrow> real list"

definition new_QueryExecutor :: "ConnectionPool \<Rightarrow> QueryExecutor" where
  "new_QueryExecutor p =
     \<lparr>executor_pool = p, active_queries = Map.empty, events = (\<lambda>ev. False), next_event = 0,
      query_metrics = (\<lambda>name. [])\<rparr>"

definition cancel :: "QueryExecutor \<Rightarrow> string \<Rightarrow> QueryExecutor \<times> bool" where
  "cancel ex qid =
     (case active_queries ex qid of
        Some ev \<Rightarrow> (ex\<lparr>events := (events ex)(ev := True)\<rparr>, True)
      | None \<Rightarrow> (ex, False))"

text \<open>
  What the environment chooses during one call of \<^verbatim>\<open>execute\<close>: the clock readings
  (\<open>t_deadline\<close> is the one from which \<^verbatim>\<open>_acquire_wrapper\<close> computes its deadline,
  \<open>t_acquire\<close> the one of its first pass through the loop), the outcome of every driver
  call (a task cancellation is delivered as the \<open>CancelledError\<close> of the call that is
  awaited), the schedule of the wait for a connection, and the
  moments at which another task calls \<^verbatim>\<open>cancel\<close> with the request's query id. The call
  is cut into phases by its \<^verbatim>\<open>await\<close>s: phase 0 is the acquisition of the connection,
  phase 1 the \<^verbatim>\<open>BEGIN\<close> and the statement, phase \<open>k + 2\<close> the \<open>k\<close>-th
  \<^verbatim>\<open>fetchmany\<close> (counted from 0); \<open>cancel_during env i\<close> says that \<^verbatim>\<open>cancel\<close> runs
  during phase \<open>i\<close>.
\<close>

record exec_env =
  t_start :: real
  t_result :: real
  t_metrics :: real
  t_deadline :: real
  t_acquire :: real
  acquire_create_failure :: "(nat \<times> exn) option"
  wake_schedule :: "(real \<times> pool_op list) list"
  cancel_during :: "nat \<Rightarrow> bool"
  begin_failure :: "exn option"
  execute_outcome :: "exn + cursor"
  fetch_failure :: "nat \<Rightarrow> exn option"
  commit_failure :: "exn option"
  t_release :: real
  release_close_failure :: "exn option"
  release_create_failure :: "(nat \<times> exn) option"

definition other_tasks :: "QueryExecutor \<Rightarrow> QueryRequest \<Rightarrow> exec_env \<Rightarrow> nat \<Rightarrow> QueryExecutor" where
  "other_tasks ex req env phase =
     (if cancel_during env phase then fst (cancel ex (query_id req)) else ex)"

definition issue :: "QueryExecutor \<Rightarrow> db_call \<Rightarrow> QueryExecutor" where
  "issue ex c = ex\<lparr>executor_pool := (executor_pool ex)\<lparr>db_log := db_log (executor_pool ex) @ [c]\<rparr>\<rparr>"

definition record_metric :: "QueryExecutor \<Rightarrow> QueryType \<Rightarrow> exec_env \<Rightarrow> QueryExecutor" where
  "record_metric ex qt env =
     ex\<lparr>query_metrics := (query_metrics ex)
          (type_name qt := query_metrics ex (type_name qt) @ [t_metrics env - t_start env])\<rparr>"

text \<open>\<^verbatim>\<open>request.row_limit and row_count >= request.row_limit\<close>: \<^verbatim>\<open>None\<close> and \<open>0\<close> are
  both false in Python.\<close>

definition limit_reached :: "int option \<Rightarrow> int \<Rightarrow> bool" where
  "limit_reached lmt n = (case lmt of None \<Rightarrow> False | Some l \<Rightarrow> l \<noteq> 0 \<and> n \<ge> l)"

text \<open>The \<^verbatim>\<open>for row in batch\<close> loop, with its \<^verbatim>\<open>break\<close>.\<close>

fun collect_batch :: "int option \<Rightarrow> row list \<Rightarrow> row list \<Rightarrow> int \<Rightarrow> row list \<times> int" where
  "collect_batch lmt [] got n = (got, n)"
| "collect_batch lmt (r # batch) got n =
     (if limit_reached lmt n then (got, n) else collect_batch lmt batch (got @ [r]) (n + 1))"

text \<open>
  The \<^verbatim>\<open>while True\<close> loop of the SELECT branch; \<open>k\<close> counts the passes, \<open>got\<close> and \<open>n\<close>
  are \<^verbatim>\<open>rows\<close> and \<^verbatim>\<open>row_count\<close>.
\<close>

function fetch_loop ::
  "QueryExecutor \<Rightarrow> QueryRequest \<Rightarrow> exec_env \<Rightarrow> nat \<Rightarrow> nat \<Rightarrow> nat \<Rightarrow> row list \<Rightarrow> row list \<Rightarrow> int
     \<Rightarrow> QueryExecutor \<times> (row list \<times> int) outcome" where
  "fetch_loop ex req env ev conn k pending got n =
     (if events ex ev then (ex, Raised QueryCancelledException)
      else
        (let ex1 = other_tasks (issue ex (FetchMany conn (fetch_size req))) req env (k + 2)
         in case fetch_failure env k of
              Some e \<Rightarrow> (ex1, Raised e)
            | None \<Rightarrow>
                (let batch = fst (fetchmany (fetch_size req) pending);
                     rest = snd (fetchmany (fetch_size req) pending)
                 in if batch = [] then (ex1, Returned (got, n))
                    else
                      (let collected = collect_batch (row_limit req) batch got n
                       in if limit_reached (row_limit req) (snd collected)
                          then (ex1, Returned collected)
                          else fetch_loop ex1 req env ev conn (Suc k) rest
                                 (fst collected) (snd collected)))))"
  by pat_completeness auto
termination
  by (relation "measure (\<lambda>(ex, req, env, ev, conn, k, pending, got, n). length pending)")
     (auto simp: fetchmany_def split: if_splits)

declare fetch_loop.simps [simp del]

text \<open>
  The body of the \<^verbatim>\<open>async with self._pool.acquire(...)\<close> block, on connection
  \<open>conn\<close>; \<open>ev\<close> is the call's cancellation event. It is written block by block:
  the optional \<^verbatim>\<open>BEGIN\<close>, the SELECT branch, the branch of every other statement, and
  the body that chains them.
\<close>

definition begin_isolation ::
  "QueryExecutor \<Rightarrow> QueryRequest \<Rightarrow> exec_env \<Rightarrow> nat \<Rightarrow> QueryExecutor \<times> exn option" where
  "begin_isolation ex req env conn =
     (case isolation_value (isolation_level req) of
        Some mode \<Rightarrow> (issue ex (Execute conn (''BEGIN '' @ mode) []), begin_failure env)
      | None \<Rightarrow> (ex, None))"

definition select_branch ::
  "QueryExecutor \<Rightarrow> QueryRequest \<Rightarrow> exec_env \<Rightarrow> nat \<Rightarrow> nat \<Rightarrow> QueryType \<Rightarrow> string list \<Rightarrow> cursor
     \<Rightarrow> QueryExecutor \<times> QueryResult outcome" where
  "select_branch ex req env ev conn qt ws cur =
     (let cols = (case description cur of Some names \<Rightarrow> names | None \<Rightarrow> [])
      in case fetch_loop ex req env ev conn 0 (result_rows cur) [] 0 of
           (ex1, Returned (got, n)) \<Rightarrow>
             (ex1,
              Returned
                \<lparr>result_query_id = query_id req, status = SUCCESS,
                 rows = got, columns = cols, row_count = n,
                 affected_rows = 0, last_row_id = None,
                 execution_time = t_result env - t_start env,
                 query_type = qt, error = None, warnings = ws,
                 result_metadata = metadata req\<rparr>)
         | (ex1, Raised e) \<Rightarrow> (ex1, Raised e)
         | (ex1, Blocked) \<Rightarrow> (ex1, Blocked))"

definition write_branch ::
  "QueryExecutor \<Rightarrow> QueryRequest \<Rightarrow> exec_env \<Rightarrow> nat \<Rightarrow> QueryType \<Rightarrow> string list \<Rightarrow> cursor
     \<Rightarrow> QueryExecutor \<times> QueryResult outcome" where
  "write_branch ex req env conn qt ws cur =
     (let ex1 = issue ex (Commit conn)
      in case commit_failure env of
           Some e \<Rightarrow> (ex1, Raised e)
         | None \<Rightarrow>
             (ex1,
              Returned
                \<lparr>result_query_id = query_id req, status = SUCCESS,
                 rows = [], columns = [], row_count = 0,
                 affected_rows = rowcount cur, last_row_id = lastrowid cur,
                 execution_time = t_result env - t_start env,
                 query_type = qt, error = None, warnings = ws,
                 result_metadata = metadata req\<rparr>))"

definition run_query ::
  "QueryExecutor \<Rightarrow> QueryRequest \<Rightarrow> exec_env \<Rightarrow> nat \<Rightarrow> nat \<Rightarrow> QueryType \<Rightarrow> string list
     \<Rightarrow> QueryExecutor \<times> QueryResult outcome" where
  "run_query ex req env ev conn qt ws =
     (if events ex ev then (ex, Raised QueryCancelledException)
      else
        (let begun = begin_isolation (other_tasks ex req env 1) req env conn
         in case snd begun of
              Some e \<Rightarrow> (fst begun, Raised e)
            | None \<Rightarrow>
                (let ex2 = issue (fst begun) (Execute conn (sql req) (params req))
                 in case execute_outcome env of
                      Inl e \<Rightarrow> (ex2, Raised e)
                    | Inr cur \<Rightarrow>
                        (case (if qt = SELECT then select_branch ex2 req env ev conn qt ws cur
                               else write_branch ex2 req env conn qt ws cur) of
                           (ex3, Returned result) \<Rightarrow> (record_metric ex3 qt env, Returned result)
                         | (ex3, Raised e) \<Rightarrow> (ex3, Raised e)
                         | (ex3, Blocked) \<Rightarrow> (ex3, Blocked)))))"

text \<open>
  The scoped acquisition: \<^verbatim>\<open>_acquire_wrapper\<close>, the body, and the \<^verbatim>\<open>finally\<close> that
  releases the wrapper whatever the body did (an exception of the release replaces the
  body's outcome).
\<close>

definition with_connection ::
  "QueryExecutor \<Rightarrow> QueryRequest \<Rightarrow> exec_env \<Rightarrow> nat \<Rightarrow> QueryType \<Rightarrow> string list
     \<Rightarrow> QueryExecutor \<times> QueryResult outcome" where
  "with_connection ex req env ev qt ws =
     (let acquired = acquire_wrapper (executor_pool ex) (timeout req) (t_deadline env) (t_acquire env)
                       (acquire_create_failure env) (wake_schedule env);
          ex1 = ex\<lparr>executor_pool := fst acquired\<rparr>
      in case snd acquired of
           Blocked \<Rightarrow> (ex1, Blocked)
         | Raised e \<Rightarrow> (ex1, Raised e)
         | Returned conn \<Rightarrow>
             (let ran = run_query ex1 req env ev conn qt ws;
                  released = release_wrapper (executor_pool (fst ran)) conn (t_release env)
                               (release_close_failure env) (release_create_failure env);
                  ex2 = (fst ran)\<lparr>executor_pool := fst released\<rparr>
              in case snd released of
                   Raised e \<Rightarrow> (ex2, Raised e)
                 | Returned u \<Rightarrow> (ex2, snd ran)
                 | Blocked \<Rightarrow> (ex2, Blocked)))"

text \<open>The \<^verbatim>\<open>try\<close> block of \<^verbatim>\<open>execute\<close>: classification, the read-only check, then the
  work on a pooled connection.\<close>

definition execute_try ::
  "QueryExecutor \<Rightarrow> QueryRequest \<Rightarrow> exec_env \<Rightarrow> nat \<Rightarrow> QueryExecutor \<times> QueryResult outcome" where
  "execute_try ex req env ev =
     (let qt = determine_type (sql req);
          ws = validate_security (sql req) False
      in if read_only req \<and> \<not> is_read_only qt then
           (ex,
            Returned
              \<lparr>result_query_id = query_id req, status = ERROR,
               rows = [], columns = [], row_count = 0,
               affected_rows = 0, last_row_id = None,
               execution_time = t_result env - t_start env,
               query_type = qt,
               error = Some ''Write operations not allowed in read-only mode'',
               warnings = ws, result_metadata = metadata req\<rparr>)
         else with_connection (other_tasks ex req env 0) req env ev qt ws)"

text \<open>The three \<^verbatim>\<open>except\<close> clauses, in the source's order; the last one is
  \<^verbatim>\<open>except Exception\<close>, so the handler is entered for the exceptions that satisfy
  \<open>is_Exception\<close> only.\<close>

fun handle_exception :: "QueryRequest \<Rightarrow> exec_env \<Rightarrow> exn \<Rightarrow> QueryResult" where
  "handle_exception req env QueryCancelledException =
     \<lparr>result_query_id = query_id req, status = CANCELLED,
      rows = [], columns = [], row_count = 0, affected_rows = 0, last_row_id = None,
      execution_time = t_result env - t_start env,
      query_type = determine_type (sql req),
      error = Some ''Query was cancelled'', warnings = [], result_metadata = metadata req\<rparr>"
| "handle_exception req env TimeoutError =
     \<lparr>result_query_id = query_id req, status = TIMEOUT,
      rows = [], columns = [], row_count = 0, affected_rows = 0, last_row_id = None,
      execution_time = t_result env - t_start env,
      query_type = determine_type (sql req),
      error = Some ''Query timed out'', warnings = [], result_metadata = metadata req\<rparr>"
| "handle_exception req env e =
     \<lparr>result_query_id = query_id req, status = ERROR,
      rows = [], columns = [], row_count = 0, affected_rows = 0, last_row_id = None,
      execution_time = t_result env - t_start env,
      query_type = determine_type (sql req),
      error = Some (exn_str e), warnings = [], result_metadata = metadata req\<rparr>"

text \<open>Registration of the cancellation event on entry, and the \<^verbatim>\<open>finally\<close> clause,
  which also runs when an exception that no clause catches leaves the call.\<close>

definition register_query :: "QueryExecutor \<Rightarrow> QueryRequest \<Rightarrow> QueryExecutor \<times> nat" where
  "register_query ex req =
     (let ev = next_event ex
      in (ex\<lparr>events := (events ex)(ev := False), next_event := Suc ev,
             active_queries := (active_queries ex)(query_id req \<mapsto> ev)\<rparr>, ev))"

definition unregister_query :: "QueryExecutor \<Rightarrow> QueryRequest \<Rightarrow> QueryExecutor" where
  "unregister_query ex req = ex\<lparr>active_queries := (active_queries ex)(query_id req := None)\<rparr>"

definition execute ::
  "QueryExecutor \<Rightarrow> QueryRequest \<Rightarrow> exec_env \<Rightarrow> QueryExecutor \<times> QueryResult outcome" where
  "execute ex req env =
     (let registered = register_query ex req
      in case execute_try (fst registered) req env (snd registered) of
           (ex2, Returned r) \<Rightarrow> (unregister_query ex2 req, Returned r)
         | (ex2, Raised e) \<Rightarrow>
             (unregister_query ex2 req,
              if is_Exception e then Returned (handle_exception req env e) else Raised e)
         | (ex2, Blocked) \<Rightarrow> (ex2, Blocked))"

section \<open>TransactionManager\<close>

record TransactionManager =
  tm_executor :: QueryExecutor
  active_transactions :: "string \<rightharpoonup> QueryRequest list"

definition new_TransactionManager :: "QueryExecutor \<Rightarrow> TransactionManager" where
  "new_TransactionManager ex = \<lparr>tm_executor = ex, active_transactions = Map.empty\<rparr>"

definition not_found :: "string \<Rightarrow> exn" where
  "not_found transaction_id = ValueError (''Transaction '' @ transaction_id @ '' not found'')"

text \<open>\<^verbatim>\<open>begin\<close>: \<^verbatim>\<open>transaction_id or uuid.uuid4().hex\<close>, an empty id counting as none.\<close>

definition tm_begin :: "TransactionManager \<Rightarrow> string option \<Rightarrow> string \<Rightarrow> TransactionManager \<times> string" where
  "tm_begin tm transaction_id uuid =
     (let tx_id = (case transaction_id of
                     Some t \<Rightarrow> if t \<noteq> [] then t else uuid
                   | None \<Rightarrow> uuid)
      in (tm\<lparr>active_transactions := (active_transactions tm)(tx_id \<mapsto> [])\<rparr>, tx_id))"

definition execute_in_transaction ::
  "TransactionManager \<Rightarrow> string \<Rightarrow> QueryRequest \<Rightarrow> exec_env \<Rightarrow> TransactionManager \<times> QueryResult outcome" where
  "execute_in_transaction tm transaction_id req env =
     (case active_transactions tm transaction_id of
        None \<Rightarrow> (tm, Raised (not_found transaction_id))
      | Some statements \<Rightarrow>
          (let tm1 = tm\<lparr>active_transactions :=
                        (active_transactions tm)(transaction_id \<mapsto> statements @ [req])\<rparr>;
               ran = execute (tm_executor tm1) req env
           in (tm1\<lparr>tm_executor := fst ran\<rparr>, snd ran)))"

definition commit :: "TransactionManager \<Rightarrow> string \<Rightarrow> TransactionManager \<times> unit outcome" where
  "commit tm transaction_id =
     (case active_transactions tm transaction_id of
        None \<Rightarrow> (tm, Raised (not_found transaction_id))
      | Some statements \<Rightarrow>
          (tm\<lparr>active_transactions := (active_transactions tm)(transaction_id := None)\<rparr>,
           Returned ()))"

definition rollback :: "TransactionManager \<Rightarrow> string \<Rightarrow> TransactionManager \<times> unit outcome" where
  "rollback tm transaction_id =
     (case active_transactions tm transaction_id of
        None \<Rightarrow> (tm, Raised (not_found transaction_id))
      | Some statements \<Rightarrow>
          (tm\<lparr>active_transactions := (active_transactions tm)(transaction_id := None)\<rparr>,
           Returned ()))"

section \<open>Specification-level definitions\<close>

text \<open>
  The classification as the specification words it: the leading keyword of the
  statement (leading whitespace ignored, the word read up to the first character that
  is not a word character) is looked up, case-insensitively, in the ordered table; the
  first entry that matches decides, and \<open>UNKNOWN\<close> is returned when none does.
\<close>


definition spec_leading_word :: "string \<Rightarrow> string" where
  "spec_leading_word q = takeWhile py_isword (dropWhile py_isspace q)"

definition SPEC_KEYWORD_TABLE :: "(string \<times> QueryType) list" where
  "SPEC_KEYWORD_TABLE =
    [(''SELECT'', SELECT), (''INSERT'', INSERT), (''UPDATE'', UPDATE), (''DELETE'', DELETE),
     (''CREATE'', CREATE), (''DROP'', DROP), (''ALTER'', ALTER), (''TRUNCATE'', TRUNCATE),
     (''BEGIN'', BEGIN), (''COMMIT'', COMMIT), (''ROLLBACK'', ROLLBACK), (''PRAGMA'', PRAGMA),
     (''EXPLAIN'', EXPLAIN), (''ATTACH'', ATTACH), (''DETACH'', DETACH), (''VACUUM'', VACUUM)]"

fun spec_lookup_keyword :: "(string \<times> QueryType) list \<Rightarrow> string \<Rightarrow> QueryType" where
  "spec_lookup_keyword [] w = UNKNOWN"
| "spec_lookup_keyword ((kw, qt) # tbl) w =
     (if map py_lower w = map py_lower kw then qt else spec_lookup_keyword tbl w)"

definition spec_determine_type :: "string \<Rightarrow> QueryType" where
  "spec_determine_type q = spec_lookup_keyword SPEC_KEYWORD_TABLE (spec_leading_word q)"

definition ascii_upper :: "char \<Rightarrow> bool" where
  "ascii_upper c = (65 \<le> (of_char c :: nat) \<and> (of_char c :: nat) \<le> 90)"

definition upper_word :: "string \<Rightarrow> bool" where
  "upper_word kw = (kw \<noteq> [] \<and> list_all ascii_upper kw)"

text \<open>
  What the specification's pool invariant says of a pool state, and the calling
  discipline of the pool: \<^verbatim>\<open>_release_wrapper\<close> is only called by the \<^verbatim>\<open>acquire\<close>
  context manager, once for each wrapper it handed out, so a sequence of operations
  releases only wrappers that are in use at that moment. \<open>pool_inv\<close> is the inductive
  strengthening used in the proof.
\<close>


definition pool_bounded :: "ConnectionPool \<Rightarrow> bool" where
  "pool_bounded p =
     (set (pool p) \<inter> in_use p = {}
      \<and> int (length (pool p)) + int (card (in_use p)) \<le> max_connections p)"

fun scoped :: "ConnectionPool \<Rightarrow> pool_op list \<Rightarrow> bool" where
  "scoped p [] = True"
| "scoped p (Release wrapper now close_failure create_failure # ops) =
     (wrapper \<in> in_use p
      \<and> scoped (apply_op p (Release wrapper now close_failure create_failure)) ops)"
| "scoped p (op # ops) = scoped (apply_op p op) ops"

definition pool_inv :: "ConnectionPool \<Rightarrow> bool" where
  "pool_inv p =
     (finite (in_use p) \<and> distinct (pool p) \<and> set (pool p) \<inter> in_use p = {}
      \<and> int (length (pool p)) + int (card (in_use p)) \<le> max_connections p
      \<and> (\<forall>w. w \<in> set (pool p) \<or> w \<in> in_use p \<longrightarrow> w < next_ref p)
      \<and> min_connections p \<le> max_connections p)"

text \<open>
  An occurrence of a pattern in a string: a position at which the pattern matches (the
  positions that \<^verbatim>\<open>pattern.search\<close> tries).
\<close>

definition occurs_at :: "re_atom list \<Rightarrow> string \<Rightarrow> nat \<Rightarrow> bool" where
  "occurs_at p s i =
     (i \<le> length s \<and> re_from (if i = 0 then None else Some (s ! (i - 1))) p (drop i s))"

text \<open>
  The notions in which the properties of \<^verbatim>\<open>execute\<close> are stated. A request passes the
  read-only check unless it is marked read-only and its statement classifies as a
  writing type. \<open>acquisition\<close> is the call of \<^verbatim>\<open>pool.acquire(timeout=request.timeout)\<close>
  that \<^verbatim>\<open>execute\<close> makes, on the pool of the executor. \<open>succeeded\<close> says of an outcome that
  a result it returns is a successful one; \<open>log_of\<close> is the sequence of driver calls made
  so far.
\<close>

definition passes_read_only_check :: "QueryRequest \<Rightarrow> bool" where
  "passes_read_only_check req = (\<not> (read_only req \<and> \<not> is_read_only (determine_type (sql req))))"

definition acquisition :: "QueryExecutor \<Rightarrow> QueryRequest \<Rightarrow> exec_env \<Rightarrow> ConnectionPool \<times> nat outcome" where
  "acquisition ex req env =
     acquire_wrapper (executor_pool ex) (timeout req) (t_deadline env) (t_acquire env)
       (acquire_create_failure env) (wake_schedule env)"


definition log_of :: "QueryExecutor \<Rightarrow> db_call list" where
  "log_of ex = db_log (executor_pool ex)"

text \<open>
  Whether the row limit lies beyond \<open>m\<close> rows, so that collecting \<open>m\<close> rows does not
  end the fetch loop; the executor on entry to the fetch loop of a SELECT; and the result
  that the SELECT branch builds from the collected rows.
\<close>

definition limit_beyond :: "int option \<Rightarrow> int \<Rightarrow> bool" where
  "limit_beyond lmt m = (case lmt of None \<Rightarrow> True | Some l \<Rightarrow> l = 0 \<or> m < l)"

definition loop_entry :: "QueryExecutor \<Rightarrow> QueryRequest \<Rightarrow> exec_env \<Rightarrow> nat \<Rightarrow> QueryExecutor" where
  "loop_entry ex req env conn =
     issue (fst (begin_isolation
                  (other_tasks
                     ((other_tasks (fst (register_query ex req)) req env 0)
                        \<lparr>executor_pool := fst (acquisition ex req env)\<rparr>)
                     req env 1)
                  req env conn))
       (Execute conn (sql req) (params req))"

definition select_result ::
  "QueryRequest \<Rightarrow> exec_env \<Rightarrow> cursor \<Rightarrow> row list \<Rightarrow> int \<Rightarrow> QueryResult" where
  "select_result req env cur got n =
     \<lparr>result_query_id = query_id req, status = SUCCESS,
      rows = got, columns = (case description cur of Some names \<Rightarrow> names | None \<Rightarrow> []),
      row_count = n, affected_rows = 0, last_row_id = None,
      execution_time = t_result env - t_start env,
      query_type = SELECT, error = None, warnings = validate_security (sql req) False,
      result_metadata = metadata req\<rparr>"

text \<open>The \<^verbatim>\<open>fetchmany\<close> calls among a sequence of driver calls.\<close>

fun is_fetch :: "db_call \<Rightarrow> bool" where
  "is_fetch (FetchMany conn k) = True"
| "is_fetch c = False"

definition fetch_calls :: "db_call list \<Rightarrow> db_call list" where
  "fetch_calls calls = filter is_fetch calls"

text \<open>
  Concrete inputs: a cursor over \<open>m\<close> one-column rows, an environment in which no driver
  call fails and nobody cancels, an executor over a new pool and over a closed one, and
  a plain SELECT request with the defaults of \<^verbatim>\<open>QueryRequest\<close>.
\<close>

definition example_cursor :: "nat \<Rightarrow> cursor" where
  "example_cursor m =
     \<lparr>description = Some [''id''], result_rows = map (\<lambda>i. [SqlInt (int i)]) [0..<m],
      rowcount = - 1, lastrowid = None\<rparr>"

definition quiet_env :: "cursor \<Rightarrow> exec_env" where
  "quiet_env cur =
     \<lparr>t_start = 0, t_result = 1, t_metrics = 1, t_deadline = 0, t_acquire = 0,
      acquire_create_failure = None,
      wake_schedule = [], cancel_during = (\<lambda>i. False), begin_failure = None,
      execute_outcome = Inr cur, fetch_failure = (\<lambda>k. None), commit_failure = None,
      t_release = 2, release_close_failure = None, release_create_failure = None\<rparr>"

definition example_executor :: QueryExecutor where
  "example_executor = new_QueryExecutor (new_ConnectionPool ''db'' 2 10 300 3600)"

definition example_select :: QueryRequest where
  "example_select = new_QueryRequest ''SELECT * FROM t'' ''q1''"


section \<open>The analyzer classifies by the leading keyword\<close>

lemma of_char_py_lower:
  "(of_char (py_lower c) :: nat) =
     (let n = of_char c :: nat
      in if (65 \<le> n \<and> n \<le> 90) \<or> (192 \<le> n \<and> n \<le> 214) \<or> (216 \<le> n \<and> n \<le> 222)
         then n + 32 else n)"
  by (simp add: py_lower_def Let_def)

lemma space_not_word: "py_isspace c \<Longrightarrow> \<not> py_isword c"
  by (auto simp: py_isspace_def py_isword_def Let_def)

lemma lower_eq_upper_word:
  assumes "ascii_upper c" and "py_lower x = py_lower c"
  shows "py_isword x"
proof -
  have "(of_char (py_lower x) :: nat) = of_char (py_lower c)"
    using assms(2) by simp
  then show ?thesis
    using assms(1)
    by (auto simp: of_char_py_lower ascii_upper_def py_isword_def Let_def split: if_splits)
qed

lemma lower_eq_upper_not_space: "ascii_upper c \<Longrightarrow> py_lower x = py_lower c \<Longrightarrow> \<not> py_isspace x"
  using lower_eq_upper_word space_not_word by blast


lemma re_from_lits:
  "re_from prev (map Lit kw @ [WordBoundary]) s =
     (length kw \<le> length s \<and> map py_lower (take (length kw) s) = map py_lower kw
      \<and> word_at (if kw = [] then prev else Some (last (take (length kw) s)))
           \<noteq> word_at (next_char (drop (length kw) s)))"
proof (induction kw arbitrary: prev s)
  case Nil
  then show ?case by simp
next
  case (Cons c kw)
  show ?case
  proof (cases s)
    case Nil
    then show ?thesis by simp
  next
    case (Cons x xs)
    show ?thesis
      unfolding Cons using Cons.IH [of "Some x" xs]
      by (cases kw) auto
  qed
qed

lemma re_from_space_star:
  assumes "\<And>x. py_lower x = py_lower c \<Longrightarrow> \<not> py_isspace x"
  shows "re_from prev (SpaceStar # Lit c # p) s =
           re_from (if takeWhile py_isspace s = [] then prev else Some (last (takeWhile py_isspace s)))
             (Lit c # p) (dropWhile py_isspace s)"
proof (induction s arbitrary: prev)
  case Nil
  then show ?case by simp
next
  case (Cons x xs)
  show ?case
  proof (cases "py_isspace x")
    case True
    then have "py_lower x \<noteq> py_lower c"
      using assms by blast
    then show ?thesis
      using True Cons.IH [of "Some x"] by simp
  next
    case False
    then show ?thesis by simp
  qed
qed

lemma lit_prev_irrelevant: "re_from prev (Lit c # p) s = re_from prev' (Lit c # p) s"
  by (cases s) simp_all

lemma prefix_word:
  assumes "list_all ascii_upper kw"
    and "map py_lower w = map py_lower kw"
  shows "list_all py_isword w"
  using assms
proof (induction kw arbitrary: w)
  case Nil
  then show ?case by simp
next
  case (Cons c kw)
  then obtain x xs where w: "w = x # xs" by (cases w) auto
  with Cons show ?case
    by (auto intro: lower_eq_upper_word)
qed

lemma takeWhile_eq_take:
  "(takeWhile P r = w) =
     (length w \<le> length r \<and> take (length w) r = w \<and> list_all P w
      \<and> (case drop (length w) r of [] \<Rightarrow> True | y # ys \<Rightarrow> \<not> P y))"
proof (induction r arbitrary: w)
  case Nil
  then show ?case by auto
next
  case (Cons x xs)
  show ?case
  proof (cases w)
    case Nil
    then show ?thesis by auto
  next
    case (Cons y ys)
    then show ?thesis
      using Cons.IH [of ys] by auto
  qed
qed


lemma keyword_match_take:
  assumes "upper_word kw"
  shows "re_match (keyword_pattern kw) s =
     (let r = dropWhile py_isspace s
      in length kw \<le> length r \<and> map py_lower (take (length kw) r) = map py_lower kw
         \<and> (case drop (length kw) r of [] \<Rightarrow> True | y # ys \<Rightarrow> \<not> py_isword y))"
proof -
  obtain c cs where kw: "kw = c # cs"
    using assms by (cases kw) (auto simp: upper_word_def)
  have up: "ascii_upper c" "list_all ascii_upper kw"
    using assms kw by (auto simp: upper_word_def)
  define r where "r = dropWhile py_isspace s"
  have "re_match (keyword_pattern kw) s
          = re_from None (SpaceStar # Lit c # (map Lit cs @ [WordBoundary])) s"
    by (simp add: re_match_def keyword_pattern_def kw)
  also have "\<dots> = re_from None (Lit c # (map Lit cs @ [WordBoundary])) r"
    unfolding r_def
    by (subst re_from_space_star [OF lower_eq_upper_not_space [OF up(1)]], assumption)
       (rule lit_prev_irrelevant)
  also have "\<dots> = re_from None (map Lit kw @ [WordBoundary]) r"
    by (simp add: kw)
  also have "\<dots> = (length kw \<le> length r \<and> map py_lower (take (length kw) r) = map py_lower kw
      \<and> word_at (Some (last (take (length kw) r))) \<noteq> word_at (next_char (drop (length kw) r)))"
    by (subst re_from_lits) (simp add: kw)
  also have "\<dots> = (length kw \<le> length r \<and> map py_lower (take (length kw) r) = map py_lower kw
      \<and> (case drop (length kw) r of [] \<Rightarrow> True | y # ys \<Rightarrow> \<not> py_isword y))"
  proof (cases "length kw \<le> length r \<and> map py_lower (take (length kw) r) = map py_lower kw")
    case True
    then have "list_all py_isword (take (length kw) r)"
      using prefix_word [OF up(2)] by blast
    moreover have "take (length kw) r \<noteq> []"
      using True kw by auto
    ultimately have "py_isword (last (take (length kw) r))"
      by (metis last_in_set list_all_iff)
    then show ?thesis
      by (cases "drop (length kw) r") simp_all
  next
    case False
    then show ?thesis by blast
  qed
  finally show ?thesis
    by (simp add: r_def Let_def)
qed

lemma keyword_match_word:
  assumes "upper_word kw"
  shows "re_match (keyword_pattern kw) s =
           (map py_lower (takeWhile py_isword (dropWhile py_isspace s)) = map py_lower kw)"
proof -
  define r where "r = dropWhile py_isspace s"
  define w where "w = takeWhile py_isword r"
  have up: "list_all ascii_upper kw"
    using assms by (simp add: upper_word_def)
  have w: "length w \<le> length r" "take (length w) r = w" "list_all py_isword w"
    "(case drop (length w) r of [] \<Rightarrow> True | y # ys \<Rightarrow> \<not> py_isword y)"
    using takeWhile_eq_take [of py_isword r w] by (simp_all add: w_def)
  have "(length kw \<le> length r \<and> map py_lower (take (length kw) r) = map py_lower kw
         \<and> (case drop (length kw) r of [] \<Rightarrow> True | y # ys \<Rightarrow> \<not> py_isword y))
        = (map py_lower w = map py_lower kw)" (is "?L = ?R")
  proof
    assume L: ?L
    then have "list_all py_isword (take (length kw) r)"
      using prefix_word [OF up] by blast
    with L have "takeWhile py_isword r = take (length kw) r"
      by (subst takeWhile_eq_take) simp
    with L show ?R by (simp add: w_def)
  next
    assume R: ?R
    then have "length w = length kw"
      using map_eq_imp_length_eq by blast
    with w R show ?L by simp
  qed
  then show ?thesis
    using keyword_match_take [OF assms, of s] by (simp add: r_def w_def Let_def)
qed

lemma leading_word_strip: "spec_leading_word (strip q) = spec_leading_word q"
proof -
  define r where "r = dropWhile py_isspace q"
  define s where "s = rev (dropWhile py_isspace (rev r))"
  define t where "t = rev (takeWhile py_isspace (rev r))"
  have r: "r = s @ t"
    by (metis rev_append rev_rev_ident s_def t_def takeWhile_dropWhile_id)
  have t: "list_all py_isspace t"
    by (simp add: t_def list_all_iff) (meson set_takeWhileD)
  have s: "dropWhile py_isspace s = s"
  proof (cases s)
    case Nil
    then show ?thesis by simp
  next
    case (Cons x xs)
    then have "r \<noteq> []" "hd r = x"
      using r by auto
    then have "\<not> py_isspace x"
      unfolding r_def using hd_dropWhile by blast
    then show ?thesis by (simp add: Cons)
  qed
  have "takeWhile py_isword (s @ t) = takeWhile py_isword s"
  proof (cases t)
    case Nil
    then show ?thesis by simp
  next
    case (Cons y ys)
    then have "\<not> py_isword y"
      using t space_not_word by simp
    then show ?thesis
      by (simp add: Cons takeWhile_tail)
  qed
  moreover have "strip q = s"
    by (simp add: strip_def s_def r_def)
  moreover have "spec_leading_word q = takeWhile py_isword (s @ t)"
    using r by (simp add: spec_leading_word_def r_def)
  ultimately show ?thesis
    using s by (simp add: spec_leading_word_def)
qed

lemma first_match_lookup:
  assumes "list_all (\<lambda>(kw, t). upper_word kw) tbl"
  shows "first_match (map (\<lambda>(kw, t). (keyword_pattern kw, t)) tbl) s
           = spec_lookup_keyword tbl (spec_leading_word s)"
  using assms
  by (induction tbl) (auto simp: keyword_match_word spec_leading_word_def)

lemma QUERY_PATTERNS_table:
  "QUERY_PATTERNS = map (\<lambda>(kw, t). (keyword_pattern kw, t)) SPEC_KEYWORD_TABLE"
  by (simp add: QUERY_PATTERNS_def SPEC_KEYWORD_TABLE_def)

lemma KEYWORD_TABLE_upper: "list_all (\<lambda>(kw, t). upper_word kw) SPEC_KEYWORD_TABLE"
  by (simp add: SPEC_KEYWORD_TABLE_def upper_word_def ascii_upper_def)

lemma determine_type_spec: "determine_type q = spec_determine_type q"
  by (simp add: determine_type_def spec_determine_type_def QUERY_PATTERNS_table
      first_match_lookup [OF KEYWORD_TABLE_upper] leading_word_strip)

text \<open>
  Claim C6. \<^verbatim>\<open>determine_type\<close> classifies a statement by its leading keyword,
  case-insensitively and ignoring leading whitespace, against the ordered table SELECT,
  INSERT, UPDATE, DELETE, CREATE, DROP, ALTER, TRUNCATE, BEGIN, COMMIT, ROLLBACK, PRAGMA,
  EXPLAIN, ATTACH, DETACH, VACUUM, the first match winning; a statement that matches none
  of them is UNKNOWN. The function of the source (strip, then the sixteen anchored
  patterns tried in order) equals the specification's lookup on every statement, and the
  three examples of the specification come out as stated.
\<close>

theorem determine_type_leading_keyword:
  "determine_type q = spec_determine_type q
   \<and> determine_type ''  select * from t'' = SELECT
   \<and> determine_type ''INSERT INTO t VALUES (1)'' = INSERT
   \<and> determine_type ''foo'' = UNKNOWN"
proof -
  have "determine_type ''  select * from t'' = SELECT"
    by code_simp
  moreover have "determine_type ''INSERT INTO t VALUES (1)'' = INSERT"
    by code_simp
  moreover have "determine_type ''foo'' = UNKNOWN"
    by code_simp
  ultimately show ?thesis
    using determine_type_spec by simp
qed

section \<open>The pool invariant\<close>

lemma pool_inv_bounded: "pool_inv p \<Longrightarrow> pool_bounded p"
  by (simp add: pool_inv_def pool_bounded_def)

lemma create_connection_frame:
  assumes "create_connection p now failure = (p', r)"
  shows "pool p' = pool p" "in_use p' = in_use p" "next_ref p' = Suc (next_ref p)"
    "min_connections p' = min_connections p" "max_connections p' = max_connections p"
    "closed p' = closed p"
    "r \<noteq> Blocked" "r = Returned w \<Longrightarrow> w = next_ref p"
  using assms by (auto simp: create_connection_def Let_def split: option.splits prod.splits)

lemma pool_inv_new:
  "min_conn \<le> max_conn \<Longrightarrow> 0 \<le> max_conn \<Longrightarrow> pool_inv (new_ConnectionPool db min_conn max_conn idle_limit age_limit)"
  by (simp add: pool_inv_def new_ConnectionPool_def)


lemma pool_inv_acquire_attempt:
  assumes "pool_inv p"
  shows "pool_inv (fst (acquire_attempt p deadline now failure))"
proof (cases "closed p")
  case True
  then show ?thesis using assms by (simp add: acquire_attempt_def)
next
  case open_pool: False
  show ?thesis
  proof (cases "pool p")
    case (Cons w idle)
    have "w \<notin> in_use p" "w \<notin> set idle" "distinct idle" "finite (in_use p)"
      using assms Cons by (auto simp: pool_inv_def)
    then show ?thesis
      using assms Cons open_pool
      by (auto simp: acquire_attempt_def pool_inv_def mark_in_use_def Let_def)
  next
    case Nil
    show ?thesis
    proof (cases "int (card (in_use p)) < max_connections p")
      case room: True
      obtain p1 r where c: "create_connection p now failure = (p1, r)"
        by (cases "create_connection p now failure")
      note fr = create_connection_frame [OF c]
      have fresh: "next_ref p \<notin> in_use p"
        using assms by (auto simp: pool_inv_def)
      show ?thesis
      proof (cases r)
        case (Returned w)
        then have "w = next_ref p" using fr(8) by simp
        then show ?thesis
          using assms Nil open_pool room c Returned fr(1-6) fresh
          by (auto simp: acquire_attempt_def pool_inv_def mark_in_use_def Let_def)
      next
        case (Raised e)
        then show ?thesis
          using assms Nil open_pool room c fr(1-6)
          by (auto simp: acquire_attempt_def pool_inv_def less_Suc_eq)
      next
        case Blocked
        then show ?thesis using fr(7) by simp
      qed
    next
      case False
      then show ?thesis
        using assms Nil open_pool
        by (auto simp: acquire_attempt_def Let_def split: option.splits)
    qed
  qed
qed

lemma pool_inv_release_wrapper:
  assumes "pool_inv p" and "w \<in> in_use p"
  shows "pool_inv (fst (release_wrapper p w now close_failure create_failure))"
proof -
  define p2 where "p2 = (mark_available p w now)\<lparr>in_use := in_use p - {w}\<rparr>"
  have card: "card (in_use p - {w}) = card (in_use p) - 1" "card (in_use p) > 0"
    using assms by (auto simp: pool_inv_def card_gt_0_iff)
  have w: "w \<notin> set (pool p)" "w < next_ref p"
    using assms by (auto simp: pool_inv_def)
  have p2: "pool p2 = pool p" "in_use p2 = in_use p - {w}" "next_ref p2 = next_ref p"
    "min_connections p2 = min_connections p" "max_connections p2 = max_connections p"
    by (simp_all add: p2_def mark_available_def)
  have inv2: "pool_inv p2" "int (length (pool p2)) + int (card (in_use p2)) < max_connections p2"
    using assms card by (auto simp: pool_inv_def p2)
  show ?thesis
  proof (cases "age p2 w now < max_connection_age p2")
    case True
    have "pool_inv (p2\<lparr>pool := pool p2 @ [w]\<rparr>)"
      using inv2 w by (auto simp: pool_inv_def p2)
    then show ?thesis
      using True by (simp add: release_wrapper_def p2_def mark_available_def age_def Let_def)
  next
    case old: False
    define p3 where "p3 = p2\<lparr>db_log := db_log p2 @ [Close w]\<rparr>"
    have inv3: "pool_inv p3"
      using inv2 by (simp add: pool_inv_def p3_def)
    have rel: "release_wrapper p w now close_failure create_failure =
      (case close_failure of
         Some e \<Rightarrow> (p3, Raised e)
       | None \<Rightarrow>
           if int (length (pool p3)) + int (card (in_use p3)) < min_connections p3
           then (case create_connection p3 now create_failure of
                   (p4, Returned new_wrapper) \<Rightarrow> (p4\<lparr>pool := pool p4 @ [new_wrapper]\<rparr>, Returned ())
                 | (p4, Raised e) \<Rightarrow> (p4, Raised e)
                 | (p4, Blocked) \<Rightarrow> (p4, Blocked))
           else (p3, Returned ()))"
      using old
      by (simp add: release_wrapper_def p2_def p3_def mark_available_def age_def Let_def
          split: option.splits)
    show ?thesis
    proof (cases close_failure)
      case (Some e)
      then show ?thesis using rel inv3 by simp
    next
      case None
      show ?thesis
      proof (cases "int (length (pool p3)) + int (card (in_use p3)) < min_connections p3")
        case False
        then show ?thesis using rel None inv3 by simp
      next
        case low: True
        obtain p4 r where c: "create_connection p3 now create_failure = (p4, r)"
          by (cases "create_connection p3 now create_failure")
        note fr = create_connection_frame [OF c]
        have inv4: "pool_inv p4"
          using inv3 fr(1-6) by (auto simp: pool_inv_def less_Suc_eq)
        show ?thesis
        proof (cases r)
          case (Returned nw)
          then have nw: "nw = next_ref p3" using fr(8) by simp
          have "pool_inv (p4\<lparr>pool := pool p4 @ [nw]\<rparr>)"
            using inv3 low fr(1-6) nw
            by (auto simp: pool_inv_def less_Suc_eq)
          then show ?thesis
            using rel None low c Returned by simp
        next
          case (Raised e)
          then show ?thesis using rel None low c inv4 by simp
        next
          case Blocked
          then show ?thesis using fr(7) by simp
        qed
      qed
    qed
  qed
qed

lemma pool_inv_remove_and_close:
  "pool_inv p \<Longrightarrow> pool_inv (fst (remove_and_close p ws close_failure))"
proof (induction ws arbitrary: p)
  case Nil
  then show ?case by simp
next
  case (Cons w ws)
  define p1 where "p1 = p\<lparr>pool := remove1 w (pool p), db_log := db_log p @ [Close w]\<rparr>"
  have "length (remove1 w (pool p)) \<le> length (pool p)"
    by (simp add: length_remove1)
  moreover have "set (remove1 w (pool p)) \<subseteq> set (pool p)"
    by (rule set_remove1_subset)
  ultimately have "pool_inv p1"
    using Cons.prems by (auto simp: pool_inv_def p1_def)
  then show ?case
    using Cons.IH [of p1]
    by (cases "close_failure w") (simp_all add: p1_def Let_def)
qed

lemma pool_inv_cleanup:
  "pool_inv p \<Longrightarrow> pool_inv (fst (cleanup_idle_connections p now close_failure))"
  by (simp add: cleanup_idle_connections_def pool_inv_remove_and_close)

lemma pool_inv_apply_op:
  assumes "pool_inv p" and "scoped p [op]"
  shows "pool_inv (apply_op p op)"
  using assms
  by (cases op) (simp_all add: pool_inv_acquire_attempt pool_inv_release_wrapper pool_inv_cleanup)

lemma scoped_Cons: "scoped p (op # ops) = (scoped p [op] \<and> scoped (apply_op p op) ops)"
  by (cases op) simp_all

lemma scoped_take: "scoped p ops \<Longrightarrow> scoped p (take n ops)"
proof (induction ops arbitrary: p n)
  case Nil
  then show ?case by simp
next
  case (Cons op ops)
  show ?case
  proof (cases n)
    case 0
    then show ?thesis by simp
  next
    case (Suc m)
    then show ?thesis
      using Cons.prems Cons.IH [of "apply_op p op" m]
      by (simp add: scoped_Cons [of p op ops] scoped_Cons [of p op "take m ops"])
  qed
qed

lemma pool_inv_run_ops: "pool_inv p \<Longrightarrow> scoped p ops \<Longrightarrow> pool_inv (run_ops p ops)"
proof (induction ops arbitrary: p)
  case Nil
  then show ?case by simp
next
  case (Cons op ops)
  then show ?case
    using pool_inv_apply_op [of p op] by (simp add: scoped_Cons [of p op ops])
qed

lemma pool_inv_initialize_loop:
  assumes "pool_inv p" and "in_use p = {}"
    and "int (length (pool p)) + int n \<le> max_connections p"
  shows "pool_inv (fst (initialize_loop n i p now failure))"
  using assms
proof (induction n arbitrary: p i)
  case 0
  then show ?case by simp
next
  case (Suc n)
  obtain p1 r where c: "create_connection p now (failure i) = (p1, r)"
    by (cases "create_connection p now (failure i)")
  note fr = create_connection_frame [OF c]
  have inv1: "pool_inv p1"
    using Suc.prems fr(1-6) by (auto simp: pool_inv_def less_Suc_eq)
  show ?case
  proof (cases r)
    case (Returned w)
    then have w: "w = next_ref p" using fr(8) by simp
    define p2 where "p2 = p1\<lparr>pool := pool p1 @ [w]\<rparr>"
    have "pool_inv p2" "in_use p2 = {}" "int (length (pool p2)) + int n \<le> max_connections p2"
      using Suc.prems fr(1-6) w by (auto simp: pool_inv_def p2_def)
    then show ?thesis
      using Suc.IH [of p2 "Suc i"] c Returned by (simp add: p2_def)
  next
    case (Raised e)
    then show ?thesis using c inv1 by simp
  next
    case Blocked
    then show ?thesis using fr(7) by simp
  qed
qed

lemma pool_inv_initialize:
  assumes "min_conn \<le> max_conn" and "0 \<le> max_conn"
  shows "pool_inv (fst (initialize (new_ConnectionPool db min_conn max_conn idle_limit age_limit) now failure))"
proof -
  define p0 where "p0 = new_ConnectionPool db min_conn max_conn idle_limit age_limit"
  have p0: "pool_inv p0" "in_use p0 = {}"
    "int (length (pool p0)) + int (nat (min_connections p0)) \<le> max_connections p0"
    using assms pool_inv_new [OF assms] by (auto simp: p0_def new_ConnectionPool_def)
  have "pool_inv (fst (initialize_loop (nat (min_connections p0)) 0 p0 now failure))"
    by (rule pool_inv_initialize_loop [OF p0])
  then show ?thesis
    unfolding p0_def [symmetric] initialize_def
    by (auto simp: pool_inv_def split: prod.splits outcome.splits)
qed

text \<open>
  Claim C1. On a pool constructed with \<open>min_connections \<le> max_connections\<close> (and a
  capacity that is not negative), initialized or not, after every prefix of every
  sequence of acquire attempts, releases (with the replacement they may create) and
  maintenance sweeps in which each release returns a wrapper that is in use, the idle
  deque and the in-use set are disjoint and together hold at most
  \<open>max_connections\<close> wrappers. The environment is arbitrary: any clock readings, any
  failures of connection creation and closing.
\<close>

theorem pool_invariant:
  assumes "min_conn \<le> max_conn" and "0 \<le> max_conn"
    and "p0 = new_ConnectionPool db min_conn max_conn idle_limit age_limit"
    and "p1 = p0 \<or> p1 = fst (initialize p0 now failure)"
    and "scoped p1 ops"
  shows "pool_bounded (run_ops p1 (take n ops))"
proof -
  have "pool_inv p1"
    using assms(1-4) pool_inv_new pool_inv_initialize by auto
  then show ?thesis
    using assms(5) by (simp add: pool_inv_bounded pool_inv_run_ops scoped_take)
qed

theorem pool_invariant_witness:
  "(1::int) \<le> 2 \<and> (0::int) \<le> 2
   \<and> scoped (fst (initialize (new_ConnectionPool ''db'' 1 2 300 3600) 0 (\<lambda>i. None)))
       [Acquire None 1 None, Acquire None 2 None, Acquire (Some 5) 3 None,
        Release 1 10 None None, Release 0 20 None None, Sweep 5000 (\<lambda>w. None),
        Acquire None 5001 None, Release 2 9000 None None]
   \<and> (\<forall>n. pool_bounded
         (run_ops (fst (initialize (new_ConnectionPool ''db'' 1 2 300 3600) 0 (\<lambda>i. None)))
            (take n
              [Acquire None 1 None, Acquire None 2 None, Acquire (Some 5) 3 None,
               Release 1 10 None None, Release 0 20 None None, Sweep 5000 (\<lambda>w. None),
               Acquire None 5001 None, Release 2 9000 None None])))"
proof -
  have s: "scoped (fst (initialize (new_ConnectionPool ''db'' 1 2 300 3600) 0 (\<lambda>i. None)))
       [Acquire None 1 None, Acquire None 2 None, Acquire (Some 5) 3 None,
        Release 1 10 None None, Release 0 20 None None, Sweep 5000 (\<lambda>w. None),
        Acquire None 5001 None, Release 2 9000 None None]"
    by code_simp
  show ?thesis
    using s pool_invariant [of 1 2 "new_ConnectionPool ''db'' 1 2 300 3600" "''db''" 300 3600
        "fst (initialize (new_ConnectionPool ''db'' 1 2 300 3600) 0 (\<lambda>i. None))" 0 "\<lambda>i. None"]
    by simp
qed

section \<open>Security warnings\<close>

lemma re_search_from_iff:
  "re_search_from prev p s =
     (\<exists>i\<le>length s. re_from (if i = 0 then prev else Some (s ! (i - 1))) p (drop i s))"
proof (induction s arbitrary: prev)
  case Nil
  then show ?case by simp
next
  case (Cons x xs)
  have "(\<exists>i\<le>length (x # xs). re_from (if i = 0 then prev else Some ((x # xs) ! (i - 1))) p (drop i (x # xs)))
      = (re_from prev p (x # xs)
         \<or> (\<exists>j\<le>length xs. re_from (if j = 0 then Some x else Some (xs ! (j - 1))) p (drop j xs)))"
    (is "?L = (?A \<or> ?B)")
  proof
    assume ?L
    then obtain i where i: "i \<le> length (x # xs)"
      "re_from (if i = 0 then prev else Some ((x # xs) ! (i - 1))) p (drop i (x # xs))"
      by blast
    show "?A \<or> ?B"
    proof (cases i)
      case 0
      then show ?thesis using i by simp
    next
      case (Suc j)
      then have "j \<le> length xs"
        "re_from (if j = 0 then Some x else Some (xs ! (j - 1))) p (drop j xs)"
        using i by (auto simp: nth_Cons split: nat.splits if_splits)
      then show ?thesis by blast
    qed
  next
    assume "?A \<or> ?B"
    then show ?L
    proof
      assume ?A
      then show ?L by (intro exI [of _ 0]) simp
    next
      assume ?B
      then obtain j where j: "j \<le> length xs"
        "re_from (if j = 0 then Some x else Some (xs ! (j - 1))) p (drop j xs)"
        by blast
      then show ?L
        by (intro exI [of _ "Suc j"]) (auto simp: nth_Cons split: nat.splits)
    qed
  qed
  then show ?case
    using Cons.IH [of "Some x"] by simp
qed

lemma re_search_iff: "re_search p s = (\<exists>i. occurs_at p s i)"
  by (auto simp: re_search_def re_search_from_iff occurs_at_def)

lemma scan_patterns_filter:
  "scan_patterns ps q ws =
     ws @ map (\<lambda>(txt, p). danger_warning txt) (filter (\<lambda>(txt, p). re_search p q) ps)"
  by (induction ps arbitrary: ws) auto

lemma validate_security_filter:
  "validate_security q False =
     map (\<lambda>(txt, p). danger_warning txt) (filter (\<lambda>(txt, p). re_search p q) DANGEROUS_PATTERNS)
     @ (if length q > 100000 then [length_warning] else [])"
  by (simp add: validate_security_def scan_patterns_filter)

lemma validate_security_occurrence:
  assumes "(txt, p) \<in> set DANGEROUS_PATTERNS" and "occurs_at p q i"
  shows "danger_warning txt \<in> set (validate_security q False)"
proof -
  have "re_search p q"
    using assms(2) re_search_iff by blast
  then have "(txt, p) \<in> set (filter (\<lambda>(txt, p). re_search p q) DANGEROUS_PATTERNS)"
    using assms(1) by simp
  then have "danger_warning txt
      \<in> set (map (\<lambda>(txt, p). danger_warning txt) (filter (\<lambda>(txt, p). re_search p q) DANGEROUS_PATTERNS))"
    by (metis (no_types, lifting) case_prod_conv image_eqI set_map)
  then show ?thesis
    by (simp add: validate_security_filter)
qed

lemma validate_security_empty:
  "(validate_security q False = []) =
     ((\<forall>txt p i. (txt, p) \<in> set DANGEROUS_PATTERNS \<longrightarrow> \<not> occurs_at p q i) \<and> length q \<le> 100000)"
proof -
  have "(filter (\<lambda>(txt, p). re_search p q) DANGEROUS_PATTERNS = [])
      = (\<forall>txt p i. (txt, p) \<in> set DANGEROUS_PATTERNS \<longrightarrow> \<not> occurs_at p q i)"
    by (auto simp: filter_empty_conv re_search_iff)
  then show ?thesis
    by (auto simp: validate_security_filter)
qed


lemma re_from_lits_append:
  assumes "map py_lower w = map py_lower kw"
  shows "re_from prev (map Lit kw @ p) (w @ s) = re_from (if w = [] then prev else Some (last w)) p s"
  using assms
proof (induction kw arbitrary: w prev)
  case Nil
  then show ?case by simp
next
  case (Cons c kw)
  then obtain x xs where w: "w = x # xs" "py_lower x = py_lower c" "map py_lower xs = map py_lower kw"
    by (cases w) auto
  show ?case
    using Cons.IH [OF w(3), of "Some x"] w by simp
qed

lemma re_from_space_star_append:
  assumes "list_all py_isspace sp"
    and "re_from (if sp = [] then prev else Some (last sp)) p s"
  shows "re_from prev (SpaceStar # p) (sp @ s)"
  using assms
proof (induction sp arbitrary: prev)
  case Nil
  then show ?case by (cases s) simp_all
next
  case (Cons x xs)
  have "re_from (Some x) (SpaceStar # p) (xs @ s)"
    using Cons.IH [of "Some x"] Cons.prems by (cases xs) simp_all
  then show ?case
    using Cons.prems by simp
qed

lemma re_from_space_plus_append:
  assumes "sp \<noteq> []" and "list_all py_isspace sp" and "re_from (Some (last sp)) p s"
  shows "re_from prev (SpacePlus # p) (sp @ s)"
proof -
  obtain x xs where sp: "sp = x # xs"
    using assms(1) by (cases sp) auto
  have "re_from (Some x) (SpaceStar # p) (xs @ s)"
    using re_from_space_star_append [of xs "Some x" p s] assms(2,3) sp by (cases xs) simp_all
  then show ?thesis
    using assms(2) sp by simp
qed

lemma occurs_at_split:
  assumes "re_from (if pre = [] then None else Some (last pre)) p rest"
  shows "occurs_at p (pre @ rest) (length pre)"
proof (cases pre rule: rev_cases)
  case Nil
  then show ?thesis using assms by (simp add: occurs_at_def)
next
  case (snoc ys y)
  then show ?thesis using assms by (simp add: occurs_at_def nth_append)
qed

lemma occurs_literal:
  assumes "map py_lower w = map py_lower kw"
  shows "occurs_at (map Lit kw) (pre @ w @ post) (length pre)"
  using re_from_lits_append [OF assms, of _ "[]" post] occurs_at_split [of pre "map Lit kw" "w @ post"]
  by simp

lemma last_word:
  assumes "upper_word kw" and "map py_lower w = map py_lower kw"
  shows "w \<noteq> []" "py_isword (last w)"
proof -
  show "w \<noteq> []"
    using assms by (auto simp: upper_word_def)
  then show "py_isword (last w)"
    using prefix_word [of kw w] assms
    by (metis last_in_set list_all_iff upper_word_def)
qed

lemma occurs_stacking:
  assumes "upper_word kw" and "map py_lower w = map py_lower kw"
    and "list_all py_isspace sp" and "\<not> word_at (next_char post)"
  shows "occurs_at (snd (stacking_pattern kw)) (pre @ '';'' @ sp @ w @ post) (length pre)"
proof -
  have "re_from (Some (last w)) [WordBoundary] post"
    using last_word [OF assms(1,2)] assms(4) by simp
  then have "re_from prev (map Lit kw @ [WordBoundary]) (w @ post)" for prev
    using re_from_lits_append [OF assms(2), of prev "[WordBoundary]" post] last_word(1) [OF assms(1,2)]
    by simp
  then have "re_from (Some (CHR '';'')) (SpaceStar # map Lit kw @ [WordBoundary]) (sp @ w @ post)"
    by (intro re_from_space_star_append [OF assms(3)])
  then have "re_from prev (snd (stacking_pattern kw)) ('';'' @ sp @ w @ post)" for prev
    by (simp add: stacking_pattern_def)
  then show ?thesis
    using occurs_at_split by blast
qed

lemma occurs_spaced_pair:
  assumes "map py_lower u = map py_lower a" and "map py_lower v = map py_lower b"
    and "sp \<noteq> []" and "list_all py_isspace sp"
  shows "occurs_at (map Lit a @ [SpacePlus] @ map Lit b) (pre @ u @ sp @ v @ post) (length pre)"
proof -
  have "re_from prev (map Lit b) (v @ post)" for prev
    using re_from_lits_append [OF assms(2), of prev "[]" post] by simp
  then have "re_from prev (SpacePlus # map Lit b) (sp @ v @ post)" for prev
    by (intro re_from_space_plus_append assms(3,4))
  then have "re_from prev (map Lit a @ [SpacePlus] @ map Lit b) (u @ sp @ v @ post)" for prev
    using re_from_lits_append [OF assms(1), of prev "SpacePlus # map Lit b" "sp @ v @ post"]
    by simp
  then show ?thesis
    using occurs_at_split by blast
qed


lemma lower_eq_code: "(py_lower x = py_lower c) = ((of_char (py_lower x) :: nat) = of_char (py_lower c))"
  by simp

lemma stacking_keywords:
  assumes "kw \<in> set [''DROP'', ''DELETE'', ''UPDATE'', ''INSERT'', ''CREATE'', ''ALTER'']"
  shows "upper_word kw" "stacking_pattern kw \<in> set DANGEROUS_PATTERNS"
  using assms by (auto simp: upper_word_def ascii_upper_def DANGEROUS_PATTERNS_def)

lemma dangerous_members:
  "(''--'', map Lit ''--'') \<in> set DANGEROUS_PATTERNS"
  "(''/'' @ [backslash] @ ''*'', map Lit ''/*'') \<in> set DANGEROUS_PATTERNS"
  "(''UNION'' @ [backslash] @ ''s+SELECT'', map Lit ''UNION'' @ [SpacePlus] @ map Lit ''SELECT'')
     \<in> set DANGEROUS_PATTERNS"
  "(''INTO'' @ [backslash] @ ''s+OUTFILE'', map Lit ''INTO'' @ [SpacePlus] @ map Lit ''OUTFILE'')
     \<in> set DANGEROUS_PATTERNS"
  "(''LOAD_FILE'', map Lit ''LOAD_FILE'') \<in> set DANGEROUS_PATTERNS"
  by (simp_all add: DANGEROUS_PATTERNS_def)

text \<open>
  Claim C7. With \<^verbatim>\<open>allow_dangerous\<close> false, \<^verbatim>\<open>validate_security\<close> returns, for every
  occurrence in the statement of one of the dangerous patterns, the warning that names
  the pattern: statement stacking (a semicolon, optional whitespace, then DROP, DELETE,
  UPDATE, INSERT, CREATE or ALTER as a whole word, in any case), the comment tokens
  \<^verbatim>\<open>--\<close> and \<^verbatim>\<open>/*\<close>, UNION and SELECT or INTO and OUTFILE separated by whitespace,
  and LOAD_FILE; it adds the length warning when the statement has more than 100000
  characters; and it returns the empty list exactly when no pattern occurs anywhere and
  the statement is not longer than that. The two examples of the specification come out
  as stated. (The warning is the pattern's, so several occurrences of one pattern share
  one warning.)
\<close>

theorem validate_security_flags:
  "((txt, p) \<in> set DANGEROUS_PATTERNS \<and> occurs_at p q i
      \<longrightarrow> danger_warning txt \<in> set (validate_security q False))
   \<and> (kw \<in> set [''DROP'', ''DELETE'', ''UPDATE'', ''INSERT'', ''CREATE'', ''ALTER'']
        \<and> q = pre @ '';'' @ sp @ w @ post \<and> list_all py_isspace sp
        \<and> map py_lower w = map py_lower kw \<and> \<not> word_at (next_char post)
      \<longrightarrow> danger_warning (fst (stacking_pattern kw)) \<in> set (validate_security q False))
   \<and> (q = pre @ ''--'' @ post \<longrightarrow> danger_warning ''--'' \<in> set (validate_security q False))
   \<and> (q = pre @ ''/*'' @ post
      \<longrightarrow> danger_warning (''/'' @ [backslash] @ ''*'') \<in> set (validate_security q False))
   \<and> (q = pre @ u @ sp @ v @ post \<and> map py_lower u = map py_lower ''UNION'' \<and> sp \<noteq> []
        \<and> list_all py_isspace sp \<and> map py_lower v = map py_lower ''SELECT''
      \<longrightarrow> danger_warning (''UNION'' @ [backslash] @ ''s+SELECT'') \<in> set (validate_security q False))
   \<and> (q = pre @ u @ sp @ v @ post \<and> map py_lower u = map py_lower ''INTO'' \<and> sp \<noteq> []
        \<and> list_all py_isspace sp \<and> map py_lower v = map py_lower ''OUTFILE''
      \<longrightarrow> danger_warning (''INTO'' @ [backslash] @ ''s+OUTFILE'') \<in> set (validate_security q False))
   \<and> (q = pre @ w @ post \<and> map py_lower w = map py_lower ''LOAD_FILE''
      \<longrightarrow> danger_warning ''LOAD_FILE'' \<in> set (validate_security q False))
   \<and> (length q > 100000 \<longrightarrow> length_warning \<in> set (validate_security q False))
   \<and> ((validate_security q False = [])
        = ((\<forall>txt p i. (txt, p) \<in> set DANGEROUS_PATTERNS \<longrightarrow> \<not> occurs_at p q i)
           \<and> length q \<le> 100000))
   \<and> validate_security ''SELECT 1; DROP TABLE t'' False \<noteq> []
   \<and> validate_security ''SELECT 1'' False = []"
proof -
  note occ = validate_security_occurrence
  have stack: "danger_warning (fst (stacking_pattern kw)) \<in> set (validate_security q False)"
    if "kw \<in> set [''DROP'', ''DELETE'', ''UPDATE'', ''INSERT'', ''CREATE'', ''ALTER'']
        \<and> q = pre @ '';'' @ sp @ w @ post \<and> list_all py_isspace sp
        \<and> map py_lower w = map py_lower kw \<and> \<not> word_at (next_char post)"
  proof -
    have kw: "kw \<in> set [''DROP'', ''DELETE'', ''UPDATE'', ''INSERT'', ''CREATE'', ''ALTER'']"
      using that by blast
    have "(fst (stacking_pattern kw), snd (stacking_pattern kw)) \<in> set DANGEROUS_PATTERNS"
      using stacking_keywords(2) [OF kw] by simp
    moreover have "occurs_at (snd (stacking_pattern kw)) q (length pre)"
      using occurs_stacking [OF stacking_keywords(1) [OF kw], of w sp post pre] that by blast
    ultimately show ?thesis
      by (rule occ)
  qed
  have dash: "danger_warning ''--'' \<in> set (validate_security q False)" if "q = pre @ ''--'' @ post"
    unfolding that
    by (rule occ [OF dangerous_members(1) occurs_literal [OF refl]])
  have star: "danger_warning (''/'' @ [backslash] @ ''*'') \<in> set (validate_security q False)"
    if "q = pre @ ''/*'' @ post"
    unfolding that
    by (rule occ [OF dangerous_members(2) occurs_literal [OF refl]])
  have union: "danger_warning (''UNION'' @ [backslash] @ ''s+SELECT'') \<in> set (validate_security q False)"
    if "q = pre @ u @ sp @ v @ post \<and> map py_lower u = map py_lower ''UNION'' \<and> sp \<noteq> []
        \<and> list_all py_isspace sp \<and> map py_lower v = map py_lower ''SELECT''"
  proof -
    have "occurs_at (map Lit ''UNION'' @ [SpacePlus] @ map Lit ''SELECT'') q (length pre)"
      using occurs_spaced_pair [of u "''UNION''" v "''SELECT''" sp pre post] that by blast
    then show ?thesis
      by (rule occ [OF dangerous_members(3)])
  qed
  have outfile: "danger_warning (''INTO'' @ [backslash] @ ''s+OUTFILE'') \<in> set (validate_security q False)"
    if "q = pre @ u @ sp @ v @ post \<and> map py_lower u = map py_lower ''INTO'' \<and> sp \<noteq> []
        \<and> list_all py_isspace sp \<and> map py_lower v = map py_lower ''OUTFILE''"
  proof -
    have "occurs_at (map Lit ''INTO'' @ [SpacePlus] @ map Lit ''OUTFILE'') q (length pre)"
      using occurs_spaced_pair [of u "''INTO''" v "''OUTFILE''" sp pre post] that by blast
    then show ?thesis
      by (rule occ [OF dangerous_members(4)])
  qed
  have load: "danger_warning ''LOAD_FILE'' \<in> set (validate_security q False)"
    if "q = pre @ w @ post \<and> map py_lower w = map py_lower ''LOAD_FILE''"
  proof -
    have "occurs_at (map Lit ''LOAD_FILE'') q (length pre)"
      using occurs_literal [of w "''LOAD_FILE''" pre post] that by blast
    then show ?thesis
      by (rule occ [OF dangerous_members(5)])
  qed
  have long: "length_warning \<in> set (validate_security q False)" if "length q > 100000"
    using that by (simp add: validate_security_filter)
  have "list_all py_isspace '' ''" and "\<not> word_at (next_char '' TABLE t'')"
    by (simp_all add: py_isspace_def py_isword_def)
  then have "occurs_at (snd (stacking_pattern ''DROP''))
      (''SELECT 1'' @ '';'' @ '' '' @ ''DROP'' @ '' TABLE t'') (length ''SELECT 1'')"
    by (intro occurs_stacking stacking_keywords(1) refl) simp_all
  then have "danger_warning (fst (stacking_pattern ''DROP''))
      \<in> set (validate_security (''SELECT 1'' @ '';'' @ '' '' @ ''DROP'' @ '' TABLE t'') False)"
    by (intro occ [of "fst (stacking_pattern ''DROP'')" "snd (stacking_pattern ''DROP'')"])
       (simp_all add: stacking_keywords(2))
  then have ex1: "validate_security ''SELECT 1; DROP TABLE t'' False \<noteq> []"
    by auto
  have ex2: "validate_security ''SELECT 1'' False = []"
    by (simp add: validate_security_def DANGEROUS_PATTERNS_def stacking_pattern_def re_search_def
        lower_eq_code of_char_py_lower py_isspace_def py_isword_def)
  show ?thesis
  proof (intro conjI impI)
    show "danger_warning txt \<in> set (validate_security q False)"
      if "(txt, p) \<in> set DANGEROUS_PATTERNS \<and> occurs_at p q i"
      using that occ by blast
  qed (fact stack dash star union outfile load long validate_security_empty ex1 ex2
       | erule stack dash star union outfile load long)+
qed

theorem validate_security_flags_witness:
  "danger_warning (fst (stacking_pattern ''DROP'')) \<in> set (validate_security ''SELECT 1; DROP TABLE t'' False)
   \<and> danger_warning (fst (stacking_pattern ''DELETE'')) \<in> set (validate_security ''x;delete from t'' False)
   \<and> danger_warning ''--'' \<in> set (validate_security ''SELECT 1 -- note'' False)
   \<and> danger_warning (''/'' @ [backslash] @ ''*'') \<in> set (validate_security ''SELECT /* c */ 1'' False)
   \<and> danger_warning (''UNION'' @ [backslash] @ ''s+SELECT'') \<in> set (validate_security ''a union  select b'' False)
   \<and> danger_warning (''INTO'' @ [backslash] @ ''s+OUTFILE'') \<in> set (validate_security ''SELECT 1 INTO OUTFILE f'' False)
   \<and> danger_warning ''LOAD_FILE'' \<in> set (validate_security ''SELECT load_file(1)'' False)
   \<and> length_warning \<in> set (validate_security (replicate 100001 (CHR ''a'')) False)"
proof -
  have sp: "list_all py_isspace '' ''" "list_all py_isspace []" "list_all py_isspace ''  ''"
    "''  '' \<noteq> []" "'' '' \<noteq> []"
    by (simp_all add: py_isspace_def)
  have nw: "\<not> word_at (next_char '' TABLE t'')" "\<not> word_at (next_char '' from t'')"
    by (simp_all add: py_isword_def)
  have lo: "map py_lower ''delete'' = map py_lower ''DELETE''"
    "map py_lower ''union'' = map py_lower ''UNION''"
    "map py_lower ''select'' = map py_lower ''SELECT''"
    "map py_lower ''load_file'' = map py_lower ''LOAD_FILE''"
    by (simp_all add: lower_eq_code of_char_py_lower)
  have kw: "''DROP'' \<in> set [''DROP'', ''DELETE'', ''UPDATE'', ''INSERT'', ''CREATE'', ''ALTER'']"
    "''DELETE'' \<in> set [''DROP'', ''DELETE'', ''UPDATE'', ''INSERT'', ''CREATE'', ''ALTER'']"
    by simp_all
  have 1: "danger_warning (fst (stacking_pattern ''DROP'')) \<in> set (validate_security ''SELECT 1; DROP TABLE t'' False)"
    using validate_security_flags [where kw = "''DROP''" and q = "''SELECT 1; DROP TABLE t''" and pre = "''SELECT 1''"
        and sp = "'' ''" and w = "''DROP''" and post = "'' TABLE t''", THEN conjunct2, THEN conjunct1] kw(1) sp(1) nw(1)
    by simp
  have 2: "danger_warning (fst (stacking_pattern ''DELETE'')) \<in> set (validate_security ''x;delete from t'' False)"
    using validate_security_flags [where kw = "''DELETE''" and q = "''x;delete from t''" and pre = "''x''"
        and sp = "[]" and w = "''delete''" and post = "'' from t''", THEN conjunct2, THEN conjunct1] kw(2) sp(2) nw(2) lo(1)
    by simp
  have 3: "danger_warning ''--'' \<in> set (validate_security ''SELECT 1 -- note'' False)"
    using validate_security_flags [where q = "''SELECT 1 -- note''" and pre = "''SELECT 1 ''" and post = "'' note''", THEN conjunct2, THEN conjunct2, THEN conjunct1]
    by simp
  have 4: "danger_warning (''/'' @ [backslash] @ ''*'') \<in> set (validate_security ''SELECT /* c */ 1'' False)"
    using validate_security_flags [where q = "''SELECT /* c */ 1''" and pre = "''SELECT ''" and post = "'' c */ 1''", THEN conjunct2, THEN conjunct2, THEN conjunct2, THEN conjunct1]
    by simp
  have 5: "danger_warning (''UNION'' @ [backslash] @ ''s+SELECT'') \<in> set (validate_security ''a union  select b'' False)"
    using validate_security_flags [where q = "''a union  select b''" and pre = "''a ''" and u = "''union''"
        and sp = "''  ''" and v = "''select''" and post = "'' b''", THEN conjunct2, THEN conjunct2, THEN conjunct2, THEN conjunct2, THEN conjunct1] sp(3,4) lo(2,3)
    by simp
  have 6: "danger_warning (''INTO'' @ [backslash] @ ''s+OUTFILE'') \<in> set (validate_security ''SELECT 1 INTO OUTFILE f'' False)"
    using validate_security_flags [where q = "''SELECT 1 INTO OUTFILE f''" and pre = "''SELECT 1 ''" and u = "''INTO''"
        and sp = "'' ''" and v = "''OUTFILE''" and post = "'' f''", THEN conjunct2, THEN conjunct2, THEN conjunct2, THEN conjunct2, THEN conjunct2, THEN conjunct1] sp(1,5)
    by simp
  have 7: "danger_warning ''LOAD_FILE'' \<in> set (validate_security ''SELECT load_file(1)'' False)"
    using validate_security_flags [where q = "''SELECT load_file(1)''" and pre = "''SELECT ''" and w = "''load_file''"
        and post = "''(1)''", THEN conjunct2, THEN conjunct2, THEN conjunct2, THEN conjunct2, THEN conjunct2, THEN conjunct2, THEN conjunct1] lo(4)
    by simp
  have "length (replicate 100001 (CHR ''a'')) > 100000"
    by simp
  then have 8: "length_warning \<in> set (validate_security (replicate 100001 (CHR ''a'')) False)"
    using validate_security_flags [where q = "replicate 100001 (CHR ''a'')", THEN conjunct2, THEN conjunct2, THEN conjunct2, THEN conjunct2, THEN conjunct2, THEN conjunct2, THEN conjunct2, THEN conjunct1] by blast
  show ?thesis
    using 1 2 3 4 5 6 7 8 by blast
qed

section \<open>Transaction bookkeeping\<close>

text \<open>
  Claim C8. \<^verbatim>\<open>commit\<close> and \<^verbatim>\<open>rollback\<close> are the same function of the manager's
  state: each raises the "Transaction ... not found" \<^verbatim>\<open>ValueError\<close> when the id has no
  active entry and leaves the state as it is, and otherwise only deletes the entry.
  Neither touches the executor, so neither issues a statement (no COMMIT, no ROLLBACK)
  to the database: the log of driver calls is unchanged.
\<close>

theorem commit_rollback_bookkeeping:
  "commit tm tx = rollback tm tx
   \<and> commit tm tx =
       (if active_transactions tm tx = None
        then (tm, Raised (ValueError (''Transaction '' @ tx @ '' not found'')))
        else (tm\<lparr>active_transactions := (active_transactions tm)(tx := None)\<rparr>, Returned ()))
   \<and> tm_executor (fst (commit tm tx)) = tm_executor tm
   \<and> tm_executor (fst (rollback tm tx)) = tm_executor tm
   \<and> db_log (executor_pool (tm_executor (fst (commit tm tx)))) = db_log (executor_pool (tm_executor tm))
   \<and> db_log (executor_pool (tm_executor (fst (rollback tm tx)))) = db_log (executor_pool (tm_executor tm))"
  by (simp add: commit_def rollback_def not_found_def split: option.splits)

section \<open>What the executor leaves unchanged\<close>

lemma other_tasks_frame [simp]:
  "executor_pool (other_tasks ex req env k) = executor_pool ex"
  "active_queries (other_tasks ex req env k) = active_queries ex"
  "next_event (other_tasks ex req env k) = next_event ex"
  "query_metrics (other_tasks ex req env k) = query_metrics ex"
  by (simp_all add: other_tasks_def cancel_def split: option.splits)

lemma events_other_tasks:
  "events (other_tasks ex req env k) ev =
     (events ex ev \<or> (cancel_during env k \<and> active_queries ex (query_id req) = Some ev))"
  by (auto simp: other_tasks_def cancel_def split: option.splits)

lemma issue_frame [simp]:
  "active_queries (issue ex c) = active_queries ex"
  "events (issue ex c) = events ex"
  "next_event (issue ex c) = next_event ex"
  "query_metrics (issue ex c) = query_metrics ex"
  "executor_pool (issue ex c) = (executor_pool ex)\<lparr>db_log := db_log (executor_pool ex) @ [c]\<rparr>"
  by (simp_all add: issue_def)

lemma record_metric_frame [simp]:
  "active_queries (record_metric ex qt env) = active_queries ex"
  "events (record_metric ex qt env) = events ex"
  "executor_pool (record_metric ex qt env) = executor_pool ex"
  by (simp_all add: record_metric_def)


lemma create_connection_not_blocked [simp]:
  "snd (create_connection p now failure) \<noteq> Blocked"
  by (simp add: create_connection_def Let_def split: option.splits prod.splits)

lemma release_wrapper_not_blocked [simp]:
  "snd (release_wrapper p w now close_failure create_failure) \<noteq> Blocked"
proof -
  have "snd (case create_connection p' now create_failure of
               (p4, Returned new_wrapper) \<Rightarrow> (p4\<lparr>pool := pool p4 @ [new_wrapper]\<rparr>, Returned ())
             | (p4, Raised e) \<Rightarrow> (p4, Raised e)
             | (p4, Blocked) \<Rightarrow> (p4, Blocked)) \<noteq> Blocked" for p'
    using create_connection_not_blocked [of p' now create_failure]
    by (cases "create_connection p' now create_failure") (auto split: outcome.splits)
  then show ?thesis
    by (simp add: release_wrapper_def Let_def split: option.splits)
qed

lemma begin_isolation_frame [simp]:
  "active_queries (fst (begin_isolation ex req env conn)) = active_queries ex"
  "events (fst (begin_isolation ex req env conn)) = events ex"
  by (simp_all add: begin_isolation_def split: option.splits)





lemma acquisition_other_tasks [simp]:
  "acquisition (other_tasks ex req env k) req env = acquisition ex req env"
  by (simp add: acquisition_def)






















section \<open>The concrete inputs\<close>

lemma example_acquisition:
  "snd (acquisition example_executor req (quiet_env cur)) = Returned 0"
  by (simp add: acquisition_def example_executor_def quiet_env_def new_QueryExecutor_def
      new_ConnectionPool_def acquire_wrapper_def acquire_attempt_def create_connection_def
      mark_in_use_def Let_def)

lemma example_acquisition_cancel:
  "snd (acquisition example_executor req ((quiet_env cur)\<lparr>cancel_during := c\<rparr>)) = Returned 0"
  by (simp add: acquisition_def example_executor_def quiet_env_def new_QueryExecutor_def
      new_ConnectionPool_def acquire_wrapper_def acquire_attempt_def create_connection_def
      mark_in_use_def Let_def)

lemma example_cursor_length: "length (result_rows (example_cursor m)) = m"
  by (simp add: example_cursor_def)

lemma quiet_env_fields:
  "\<not> cancel_during (quiet_env cur) i" "begin_failure (quiet_env cur) = None"
  "execute_outcome (quiet_env cur) = Inr cur" "fetch_failure (quiet_env cur) k = None"
  "release_close_failure (quiet_env cur) = None" "release_create_failure (quiet_env cur) = None"
  "t_acquire (quiet_env cur) = 0" "wake_schedule (quiet_env cur) = []"
  by (simp_all add: quiet_env_def)

lemma determine_type_delete: "determine_type ''DELETE FROM t'' = DELETE"
  by (simp add: determine_type_def strip_def QUERY_PATTERNS_def keyword_pattern_def re_match_def
      lower_eq_code of_char_py_lower py_isspace_def py_isword_def)

lemma determine_type_select: "determine_type ''SELECT * FROM t'' = SELECT"
  by (simp add: determine_type_def strip_def QUERY_PATTERNS_def keyword_pattern_def re_match_def
      lower_eq_code of_char_py_lower py_isspace_def py_isword_def)

lemma example_select_fields:
  "sql example_select = ''SELECT * FROM t''" "params example_select = []"
  "determine_type (sql example_select) = SELECT"
  "row_limit example_select = None" "\<not> read_only example_select"
  "passes_read_only_check example_select"
  "isolation_level example_select = DEFERRED"
  "fetch_size example_select = 1000"
  "query_id example_select = ''q1''"
  by (simp_all add: example_select_def new_QueryRequest_def determine_type_select
      passes_read_only_check_def)


section \<open>The registry of active queries\<close>



section \<open>Read-only requests\<close>

lemma execute_read_only:
  assumes "read_only req" and "\<not> is_read_only (determine_type (sql req))"
  shows "snd (execute ex req env) =
           Returned
             \<lparr>result_query_id = query_id req, status = ERROR,
              rows = [], columns = [], row_count = 0,
              affected_rows = 0, last_row_id = None,
              execution_time = t_result env - t_start env,
              query_type = determine_type (sql req),
              error = Some ''Write operations not allowed in read-only mode'',
              warnings = validate_security (sql req) False, result_metadata = metadata req\<rparr>"
    and "executor_pool (fst (execute ex req env)) = executor_pool ex"
  using assms
  by (simp_all add: execute_def execute_try_def register_query_def unregister_query_def Let_def)

text \<open>
  Claim C3, with the message that the code produces. For a request marked read-only whose
  statement classifies as none of SELECT, PRAGMA and EXPLAIN, \<^verbatim>\<open>execute\<close> returns a
  result with status ERROR, no rows, \<^verbatim>\<open>affected_rows\<close> 0 and the error
  \<^verbatim>\<open>Write operations not allowed in read-only mode\<close>, and the pool is left exactly as it
  was: no connection is acquired and no driver call is made.
\<close>

theorem read_only_rejected:
  "read_only req \<and> determine_type (sql req) \<notin> {SELECT, PRAGMA, EXPLAIN} \<longrightarrow>
     (\<exists>r. snd (execute ex req env) = Returned r \<and> status r = ERROR \<and> affected_rows r = 0
          \<and> rows r = [] \<and> row_count r = 0
          \<and> error r = Some ''Write operations not allowed in read-only mode'')
     \<and> executor_pool (fst (execute ex req env)) = executor_pool ex"
proof
  assume a: "read_only req \<and> determine_type (sql req) \<notin> {SELECT, PRAGMA, EXPLAIN}"
  then have "\<not> is_read_only (determine_type (sql req))"
    by (simp add: is_read_only_def)
  then show "(\<exists>r. snd (execute ex req env) = Returned r \<and> status r = ERROR \<and> affected_rows r = 0
          \<and> rows r = [] \<and> row_count r = 0
          \<and> error r = Some ''Write operations not allowed in read-only mode'')
     \<and> executor_pool (fst (execute ex req env)) = executor_pool ex"
    using a execute_read_only [of req ex env] by simp
qed

theorem read_only_rejected_witness:
  "read_only ((new_QueryRequest ''DELETE FROM t'' ''q1'')\<lparr>read_only := True\<rparr>)
   \<and> determine_type (sql ((new_QueryRequest ''DELETE FROM t'' ''q1'')\<lparr>read_only := True\<rparr>))
       \<notin> {SELECT, PRAGMA, EXPLAIN}
   \<and> (\<exists>r. snd (execute example_executor ((new_QueryRequest ''DELETE FROM t'' ''q1'')\<lparr>read_only := True\<rparr>)
               (quiet_env (example_cursor 0))) = Returned r
          \<and> status r = ERROR \<and> affected_rows r = 0 \<and> rows r = [] \<and> row_count r = 0
          \<and> error r = Some ''Write operations not allowed in read-only mode'')
   \<and> executor_pool (fst (execute example_executor
         ((new_QueryRequest ''DELETE FROM t'' ''q1'')\<lparr>read_only := True\<rparr>)
         (quiet_env (example_cursor 0)))) = executor_pool example_executor"
proof -
  have h: "read_only ((new_QueryRequest ''DELETE FROM t'' ''q1'')\<lparr>read_only := True\<rparr>)"
    "determine_type (sql ((new_QueryRequest ''DELETE FROM t'' ''q1'')\<lparr>read_only := True\<rparr>))
       \<notin> {SELECT, PRAGMA, EXPLAIN}"
    by (simp_all add: new_QueryRequest_def determine_type_delete)
  show ?thesis
    using h read_only_rejected [of "(new_QueryRequest ''DELETE FROM t'' ''q1'')\<lparr>read_only := True\<rparr>"
        example_executor "quiet_env (example_cursor 0)"]
    by blast
qed

text \<open>
  The message of the rejection is not the one of the specification, which has
  \<^verbatim>\<open>write operation not allowed in read-only mode\<close>.
\<close>

theorem read_only_message_counterexample:
  "map_outcome error
     (snd (execute example_executor ((new_QueryRequest ''DELETE FROM t'' ''q1'')\<lparr>read_only := True\<rparr>)
             (quiet_env (example_cursor 0))))
     = Returned (Some ''Write operations not allowed in read-only mode'')
   \<and> map_outcome error
     (snd (execute example_executor ((new_QueryRequest ''DELETE FROM t'' ''q1'')\<lparr>read_only := True\<rparr>)
             (quiet_env (example_cursor 0))))
     \<noteq> Returned (Some ''write operation not allowed in read-only mode'')"
proof -
  have "read_only ((new_QueryRequest ''DELETE FROM t'' ''q1'')\<lparr>read_only := True\<rparr>)"
    "\<not> is_read_only (determine_type (sql ((new_QueryRequest ''DELETE FROM t'' ''q1'')\<lparr>read_only := True\<rparr>)))"
    by (simp_all add: new_QueryRequest_def determine_type_delete is_read_only_def)
  then show ?thesis
    by (simp add: execute_read_only(1))
qed

section \<open>The default isolation level\<close>

lemma log_of_simps [simp]:
  "log_of (issue ex c) = log_of ex @ [c]"
  "log_of (other_tasks ex req env k) = log_of ex"
  "log_of (record_metric ex qt env) = log_of ex"
  by (simp_all add: log_of_def)

lemma fetch_loop_log: "prefix (log_of ex) (log_of (fst (fetch_loop ex req env ev conn k pending got n)))"
proof (induction ex req env ev conn k pending got n rule: fetch_loop.induct)
  case (1 ex req env ev conn k pending got n)
  define ex1 where "ex1 = other_tasks (issue ex (FetchMany conn (fetch_size req))) req env (k + 2)"
  have ex1: "prefix (log_of ex) (log_of ex1)"
    by (simp add: ex1_def)
  show ?case
  proof (cases "events ex ev")
    case True
    then show ?thesis by (subst fetch_loop.simps) simp
  next
    case False
    show ?thesis
    proof (cases "fetch_failure env k")
      case (Some e)
      then show ?thesis
        using False ex1 by (subst fetch_loop.simps) (simp add: ex1_def Let_def)
    next
      case None
      define batch where "batch = fst (fetchmany (fetch_size req) pending)"
      define rest where "rest = snd (fetchmany (fetch_size req) pending)"
      define collected where "collected = collect_batch (row_limit req) batch got n"
      show ?thesis
      proof (cases "batch = [] \<or> limit_reached (row_limit req) (snd collected)")
        case True
        then show ?thesis
          using False None ex1
          by (subst fetch_loop.simps)
             (auto simp: ex1_def Let_def batch_def collected_def)
      next
        case go: False
        have "prefix (log_of ex1)
            (log_of (fst (fetch_loop ex1 req env ev conn (Suc k) rest (fst collected) (snd collected))))"
          using "1.IH" [OF False ex1_def None batch_def rest_def _ collected_def] go by simp
        then have "prefix (log_of ex)
            (log_of (fst (fetch_loop ex1 req env ev conn (Suc k) rest (fst collected) (snd collected))))"
          using ex1 prefix_order.trans by blast
        then show ?thesis
          using False None go
          by (subst fetch_loop.simps)
             (simp add: ex1_def Let_def batch_def rest_def collected_def)
      qed
    qed
  qed
qed

lemma branch_log:
  "prefix (log_of ex) (log_of (fst (select_branch ex req env ev conn qt ws cur)))"
  "prefix (log_of ex) (log_of (fst (write_branch ex req env conn qt ws cur)))"
proof -
  show "prefix (log_of ex) (log_of (fst (select_branch ex req env ev conn qt ws cur)))"
    using fetch_loop_log [of ex req env ev conn 0 "result_rows cur" "[]" 0]
    by (auto simp: select_branch_def Let_def split: prod.splits outcome.splits)
  show "prefix (log_of ex) (log_of (fst (write_branch ex req env conn qt ws cur)))"
    by (simp add: write_branch_def Let_def split: option.splits)
qed

lemma finish_log:
  "log_of (fst (case b of
                 (ex3, Returned result) \<Rightarrow> (record_metric ex3 qt env, Returned result)
               | (ex3, Raised e) \<Rightarrow> (ex3, Raised e)
               | (ex3, Blocked) \<Rightarrow> (ex3, Blocked))) = log_of (fst b)"
  for b :: "QueryExecutor \<times> QueryResult outcome"
  by (cases b) (auto split: outcome.splits)

lemma run_query_begins:
  assumes "\<not> events ex ev" and "isolation_level req = DEFERRED"
  shows "\<exists>rest. log_of (fst (run_query ex req env ev conn qt ws))
             = log_of ex @ Execute conn ''BEGIN DEFERRED'' [] # rest
           \<and> (begin_failure env = None \<longrightarrow>
                (\<exists>rest'. rest = Execute conn (sql req) (params req) # rest'))"
proof (cases "begin_failure env")
  case (Some e)
  then show ?thesis
    using assms by (simp add: run_query_def begin_isolation_def Let_def)
next
  case None
  define ex2 where
    "ex2 = issue (issue (other_tasks ex req env 1) (Execute conn ''BEGIN DEFERRED'' []))
             (Execute conn (sql req) (params req))"
  have l2: "log_of ex2
      = log_of ex @ [Execute conn ''BEGIN DEFERRED'' [], Execute conn (sql req) (params req)]"
    by (simp add: ex2_def)
  show ?thesis
  proof (cases "execute_outcome env")
    case (Inl e)
    then show ?thesis
      using assms None l2 by (simp add: run_query_def begin_isolation_def Let_def ex2_def)
  next
    case (Inr cur)
    define b where "b = (if qt = SELECT then select_branch ex2 req env ev conn qt ws cur
                         else write_branch ex2 req env conn qt ws cur)"
    have "prefix (log_of ex2) (log_of (fst b))"
      by (simp add: b_def branch_log)
    then obtain more where "log_of (fst b) = log_of ex2 @ more"
      by (auto simp: prefix_def)
    then have more: "log_of (fst b)
        = log_of ex @ Execute conn ''BEGIN DEFERRED'' [] # Execute conn (sql req) (params req) # more"
      using l2 by simp
    have "run_query ex req env ev conn qt ws =
        (case b of
           (ex3, Returned result) \<Rightarrow> (record_metric ex3 qt env, Returned result)
         | (ex3, Raised e) \<Rightarrow> (ex3, Raised e)
         | (ex3, Blocked) \<Rightarrow> (ex3, Blocked))"
      using assms None Inr
      by (auto simp: run_query_def begin_isolation_def Let_def ex2_def b_def)
    then have "log_of (fst (run_query ex req env ev conn qt ws)) = log_of (fst b)"
      by (simp add: finish_log)
    then show ?thesis
      using more by simp
  qed
qed

lemma create_connection_log: "prefix (db_log p) (db_log (fst (create_connection p now failure)))"
  by (simp add: create_connection_def Let_def split: option.splits prod.splits)

lemma release_wrapper_log:
  "prefix (db_log p) (db_log (fst (release_wrapper p w now close_failure create_failure)))"
proof -
  have c: "prefix (db_log p') (db_log (fst (case create_connection p' now create_failure of
               (p4, Returned new_wrapper) \<Rightarrow> (p4\<lparr>pool := pool p4 @ [new_wrapper]\<rparr>, Returned ())
             | (p4, Raised e) \<Rightarrow> (p4, Raised e)
             | (p4, Blocked) \<Rightarrow> (p4, Blocked))))" for p'
    using create_connection_log [of p' now create_failure]
    by (cases "create_connection p' now create_failure") (auto split: outcome.splits)
  have "prefix (db_log p) (db_log p')" if "prefix (db_log p @ [Close w]) (db_log p')" for p'
    using that by (meson prefix_order.trans prefixI)
  then show ?thesis
    using c [of "(mark_available p w now)\<lparr>in_use := in_use (mark_available p w now) - {w},
                   db_log := db_log (mark_available p w now) @ [Close w]\<rparr>"]
    by (auto simp: release_wrapper_def Let_def mark_available_def split: option.splits)
qed

lemma with_connection_begins:
  assumes "acquisition ex req env = (p1, Returned conn)"
    and "\<not> events ex ev" and "isolation_level req = DEFERRED"
  shows "\<exists>rest. log_of (fst (with_connection ex req env ev qt ws))
             = db_log p1 @ Execute conn ''BEGIN DEFERRED'' [] # rest
           \<and> (begin_failure env = None \<longrightarrow>
                (\<exists>rest'. rest = Execute conn (sql req) (params req) # rest'))"
proof -
  define ex1 where "ex1 = ex\<lparr>executor_pool := p1\<rparr>"
  define ran where "ran = run_query ex1 req env ev conn qt ws"
  define released where
    "released = release_wrapper (executor_pool (fst ran)) conn (t_release env)
                  (release_close_failure env) (release_create_failure env)"
  have "\<not> events ex1 ev" "log_of ex1 = db_log p1"
    using assms(2) by (simp_all add: ex1_def log_of_def)
  then obtain rest where rest: "log_of (fst ran) = db_log p1 @ Execute conn ''BEGIN DEFERRED'' [] # rest"
    "begin_failure env = None \<longrightarrow> (\<exists>rest'. rest = Execute conn (sql req) (params req) # rest')"
    using run_query_begins [of ex1 ev req env conn qt ws] assms(3) by (auto simp: ran_def)
  obtain more where more: "db_log (fst released) = log_of (fst ran) @ more"
    using release_wrapper_log [of "executor_pool (fst ran)" conn "t_release env"
        "release_close_failure env" "release_create_failure env"]
    by (auto simp: released_def log_of_def prefix_def)
  have "log_of (fst (with_connection ex req env ev qt ws)) = db_log (fst released)"
    using assms(1)
    by (simp add: with_connection_def acquisition_def Let_def ex1_def [symmetric]
        ran_def [symmetric] released_def [symmetric] log_of_def split: outcome.splits)
  then have f1: "log_of (fst (with_connection ex req env ev qt ws))
      = db_log p1 @ Execute conn ''BEGIN DEFERRED'' [] # (rest @ more)"
    using rest(1) more by simp
  have f2: "begin_failure env = None \<longrightarrow>
      (\<exists>rest'. rest @ more = Execute conn (sql req) (params req) # rest')"
    using rest(2) by auto
  show ?thesis
    by (rule exI [of _ "rest @ more"]) (use f1 f2 in blast)
qed

lemma execute_log:
  "log_of (fst (execute ex req env))
     = log_of (fst (execute_try (fst (register_query ex req)) req env (snd (register_query ex req))))"
  by (cases "execute_try (fst (register_query ex req)) req env (snd (register_query ex req))")
     (simp add: execute_def Let_def log_of_def unregister_query_def split: outcome.splits)

lemma execute_begins:
  assumes "isolation_level req = DEFERRED" and "passes_read_only_check req"
    and "acquisition ex req env = (p1, Returned conn)" and "\<not> cancel_during env 0"
  shows "\<exists>rest. db_log (executor_pool (fst (execute ex req env)))
             = db_log p1 @ Execute conn ''BEGIN DEFERRED'' [] # rest
           \<and> (begin_failure env = None \<longrightarrow>
                (\<exists>rest'. rest = Execute conn (sql req) (params req) # rest'))"
proof -
  define reg where "reg = register_query ex req"
  define ex0 where "ex0 = other_tasks (fst reg) req env 0"
  have a: "acquisition ex0 req env = (p1, Returned conn)"
    using assms(3) by (simp add: ex0_def reg_def register_query_def Let_def acquisition_def)
  have e: "\<not> events ex0 (snd reg)"
    using assms(4) by (simp add: ex0_def events_other_tasks reg_def register_query_def Let_def)
  have "execute_try (fst reg) req env (snd reg)
      = with_connection ex0 req env (snd reg) (determine_type (sql req))
          (validate_security (sql req) False)"
    using assms(2) by (auto simp: execute_try_def Let_def passes_read_only_check_def ex0_def)
  then show ?thesis
    using with_connection_begins [OF a e assms(1)]
    by (simp add: execute_log reg_def [symmetric] log_of_def [symmetric])
qed

text \<open>
  Claim C9. A request built with the defaults has isolation level DEFERRED. For a request
  with that level that passes the read-only check, once a connection is acquired (and
  the query is not cancelled before the \<^verbatim>\<open>try\<close> block reaches the connection), the
  first driver call that \<^verbatim>\<open>execute\<close> makes after the acquisition is
  \<^verbatim>\<open>BEGIN DEFERRED\<close> on that connection, whatever the type of the statement; when that
  call does not fail, the next one is the statement itself with its parameters.
\<close>

theorem default_isolation_begins:
  "isolation_level (new_QueryRequest s u) = DEFERRED
   \<and> (isolation_level req = DEFERRED \<and> passes_read_only_check req
        \<and> acquisition ex req env = (p1, Returned conn) \<and> \<not> cancel_during env 0 \<longrightarrow>
        (\<exists>rest. db_log (executor_pool (fst (execute ex req env)))
                  = db_log p1 @ Execute conn ''BEGIN DEFERRED'' [] # rest
                \<and> (begin_failure env = None \<longrightarrow>
                     (\<exists>rest'. rest = Execute conn (sql req) (params req) # rest'))))"
  using execute_begins [of req ex env p1 conn]
  by (simp add: new_QueryRequest_def)

theorem default_isolation_begins_witness:
  "isolation_level example_select = DEFERRED
   \<and> (\<exists>rest'. db_log (executor_pool (fst (execute example_executor example_select
                                              (quiet_env (example_cursor 1)))))
        = db_log (fst (acquisition example_executor example_select (quiet_env (example_cursor 1))))
            @ Execute 0 ''BEGIN DEFERRED'' [] # Execute 0 ''SELECT * FROM t'' [] # rest')"
proof -
  have h: "isolation_level example_select = DEFERRED" "passes_read_only_check example_select"
    "acquisition example_executor example_select (quiet_env (example_cursor 1))
       = (fst (acquisition example_executor example_select (quiet_env (example_cursor 1))), Returned 0)"
    "\<not> cancel_during (quiet_env (example_cursor 1)) 0"
    "begin_failure (quiet_env (example_cursor 1)) = None"
    "sql example_select = ''SELECT * FROM t''" "params example_select = []"
    using example_acquisition [of example_select "example_cursor 1"]
    by (simp_all add: example_select_fields determine_type_select quiet_env_fields prod_eq_iff)
  show ?thesis
    using h default_isolation_begins [of "''SELECT * FROM t''" "''q1''" example_select example_executor
        "quiet_env (example_cursor 1)"
        "fst (acquisition example_executor example_select (quiet_env (example_cursor 1)))" 0]
    by auto
qed

section \<open>The fetch loop of a SELECT\<close>

lemma collect_batch_limit:
  assumes "0 < l" and "n \<le> l"
  shows "collect_batch (Some l) batch got n
           = (got @ take (nat (l - n)) batch, n + min (l - n) (int (length batch)))"
  using assms(2)
proof (induction batch arbitrary: got n)
  case Nil
  then show ?case by simp
next
  case (Cons r batch)
  show ?case
  proof (cases "n = l")
    case True
    then show ?thesis
      using assms(1) by (simp add: limit_reached_def)
  next
    case False
    then have n: "n < l" using Cons.prems by simp
    then have "nat (l - n) = Suc (nat (l - (n + 1)))"
      by simp
    then show ?thesis
      using Cons.IH [of "n + 1" "got @ [r]"] n assms(1)
      by (simp add: limit_reached_def min_def)
  qed
qed

lemma collect_batch_unlimited:
  assumes "lmt = None \<or> lmt = Some 0"
  shows "collect_batch lmt batch got n = (got @ batch, n + int (length batch))"
  using assms
  by (induction batch arbitrary: got n) (auto simp: limit_reached_def)

lemma collect_batch_below:
  assumes "n + int (length batch) < l"
  shows "collect_batch (Some l) batch got n = (got @ batch, n + int (length batch))"
  using assms
  by (induction batch arbitrary: got n) (auto simp: limit_reached_def)

lemma fetchmany_positive:
  assumes "0 < k"
  shows "fst (fetchmany k pending) = take (nat k) pending"
    and "snd (fetchmany k pending) = drop (nat k) pending"
  using assms by (simp_all add: fetchmany_def)

lemma fetch_loop_limit:
  assumes "0 < l"
  shows "n < l \<Longrightarrow> \<not> events ex ev \<Longrightarrow> \<forall>i. \<not> cancel_during env i
         \<Longrightarrow> \<forall>i. fetch_failure env i = None \<Longrightarrow> 0 < fetch_size req
         \<Longrightarrow> row_limit req = Some l \<Longrightarrow>
         snd (fetch_loop ex req env ev conn k pending got n)
           = Returned (got @ take (nat (l - n)) pending, n + min (l - n) (int (length pending)))"
proof (induction ex req env ev conn k pending got n rule: fetch_loop.induct)
  case (1 ex req env ev conn k pending got n)
  note assms = "1.prems"(3,4,5,6) assms
  define f where "f = nat (fetch_size req)"
  define ex1 where "ex1 = other_tasks (issue ex (FetchMany conn (fetch_size req))) req env (k + 2)"
  define batch where "batch = fst (fetchmany (fetch_size req) pending)"
  define rest where "rest = snd (fetchmany (fetch_size req) pending)"
  define collected where "collected = collect_batch (row_limit req) batch got n"
  have f: "0 < f" "batch = take f pending" "rest = drop f pending"
    using assms(3) by (simp_all add: f_def batch_def rest_def fetchmany_positive)
  have none: "fetch_failure env k = None"
    using assms(2) by simp
  have ev1: "\<not> events ex1 ev"
    using "1.prems"(2) assms(1) by (simp add: ex1_def events_other_tasks)
  have col: "collected = (got @ take (nat (l - n)) batch, n + min (l - n) (int (length batch)))"
    using collect_batch_limit [OF assms(5), of n batch got] "1.prems"(1) assms(4)
    by (simp add: collected_def)
  have unfold: "fetch_loop ex req env ev conn k pending got n =
      (if batch = [] then (ex1, Returned (got, n))
       else if limit_reached (row_limit req) (snd collected) then (ex1, Returned collected)
       else fetch_loop ex1 req env ev conn (Suc k) rest (fst collected) (snd collected))"
    using "1.prems"(2) none
    by (subst fetch_loop.simps)
       (simp add: Let_def ex1_def batch_def rest_def collected_def)
  show ?case
  proof (cases "batch = []")
    case True
    then have "pending = []"
      using f by simp
    then show ?thesis
      using unfold True "1.prems"(1) by simp
  next
    case nonempty: False
    show ?thesis
    proof (cases "limit_reached (row_limit req) (snd collected)")
      case True
      then have enough: "l - n \<le> int (length batch)"
        using col assms(4,5) by (simp add: limit_reached_def min_def split: if_splits)
      then have "nat (l - n) \<le> f" "l - n \<le> int (length pending)"
        using f by (auto simp: min_def split: if_splits)
      then have "take (nat (l - n)) batch = take (nat (l - n)) pending"
        "min (l - n) (int (length batch)) = min (l - n) (int (length pending))"
        using enough f by (simp_all add: min_def)
      then show ?thesis
        using unfold nonempty True col by simp
    next
      case False
      then have below: "int (length batch) < l - n"
        using col assms(4,5) by (simp add: limit_reached_def min_def split: if_splits)
      then have col': "collected = (got @ batch, n + int (length batch))"
        using col by (simp add: min_def)
      have rec: "snd (fetch_loop ex1 req env ev conn (Suc k) rest (fst collected) (snd collected))
          = Returned ((got @ batch) @ take (nat (l - (n + int (length batch)))) rest,
                      (n + int (length batch)) + min (l - (n + int (length batch))) (int (length rest)))"
        using "1.IH" [OF "1.prems"(2) ex1_def none batch_def rest_def nonempty collected_def False]
          below col' ev1 assms(1-4)
        by simp
      have "nat (l - n) - length batch = nat (l - (n + int (length batch)))"
        using below by linarith
      moreover have "length batch \<le> nat (l - n)"
        using below by linarith
      ultimately have "take (nat (l - n)) (batch @ rest)
          = batch @ take (nat (l - (n + int (length batch)))) rest"
        by simp
      then have rows_eq: "take (nat (l - n)) pending
          = batch @ take (nat (l - (n + int (length batch)))) rest"
        by (simp add: f(2,3))
      have "int (length pending) = int (length batch) + int (length rest)"
        by (simp add: f(2,3))
      then have count_eq: "n + min (l - n) (int (length pending))
          = (n + int (length batch)) + min (l - (n + int (length batch))) (int (length rest))"
        using below by (simp add: min_def)
      have "fetch_loop ex req env ev conn k pending got n
          = fetch_loop ex1 req env ev conn (Suc k) rest (fst collected) (snd collected)"
        using unfold nonempty False by simp
      then show ?thesis
        using rec rows_eq count_eq by simp
    qed
  qed
qed

lemma fetch_loop_unlimited:
  "\<not> events ex ev \<Longrightarrow> \<forall>i. \<not> cancel_during env i \<Longrightarrow> \<forall>i. fetch_failure env i = None
   \<Longrightarrow> 0 < fetch_size req \<Longrightarrow> row_limit req = None \<or> row_limit req = Some 0 \<Longrightarrow>
   snd (fetch_loop ex req env ev conn k pending got n)
     = Returned (got @ pending, n + int (length pending))"
proof (induction ex req env ev conn k pending got n rule: fetch_loop.induct)
  case (1 ex req env ev conn k pending got n)
  define f where "f = nat (fetch_size req)"
  define ex1 where "ex1 = other_tasks (issue ex (FetchMany conn (fetch_size req))) req env (k + 2)"
  define batch where "batch = fst (fetchmany (fetch_size req) pending)"
  define rest where "rest = snd (fetchmany (fetch_size req) pending)"
  define collected where "collected = collect_batch (row_limit req) batch got n"
  have f: "0 < f" "batch = take f pending" "rest = drop f pending"
    using "1.prems"(4) by (simp_all add: f_def batch_def rest_def fetchmany_positive)
  have none: "fetch_failure env k = None"
    using "1.prems"(3) by simp
  have ev1: "\<not> events ex1 ev"
    using "1.prems"(1,2) by (simp add: ex1_def events_other_tasks)
  have col: "collected = (got @ batch, n + int (length batch))"
    using collect_batch_unlimited [OF "1.prems"(5)] by (simp add: collected_def)
  have go: "\<not> limit_reached (row_limit req) (snd collected)"
    using "1.prems"(5) by (auto simp: limit_reached_def)
  have unfold: "fetch_loop ex req env ev conn k pending got n =
      (if batch = [] then (ex1, Returned (got, n))
       else fetch_loop ex1 req env ev conn (Suc k) rest (fst collected) (snd collected))"
    using "1.prems"(1) none go
    by (subst fetch_loop.simps)
       (simp add: Let_def ex1_def batch_def rest_def collected_def)
  show ?case
  proof (cases "batch = []")
    case True
    then have "pending = []"
      using f by simp
    then show ?thesis
      using unfold True by simp
  next
    case nonempty: False
    have rec: "snd (fetch_loop ex1 req env ev conn (Suc k) rest (fst collected) (snd collected))
        = Returned ((got @ batch) @ rest, (n + int (length batch)) + int (length rest))"
      using "1.IH" [OF "1.prems"(1) ex1_def none batch_def rest_def nonempty collected_def go]
        col ev1 "1.prems"(2-5)
      by simp
    have "batch @ rest = pending" "int (length batch) + int (length rest) = int (length pending)"
      by (simp_all add: f(2,3))
    then have "(got @ batch) @ rest = got @ pending"
      "(n + int (length batch)) + int (length rest) = n + int (length pending)"
      by simp_all
    then show ?thesis
      using unfold nonempty rec by simp
  qed
qed

lemma collect_batch_beyond:
  assumes "limit_beyond lmt (n + int (length batch))"
  shows "collect_batch lmt batch got n = (got @ batch, n + int (length batch))"
    and "\<not> limit_reached lmt (n + int (length batch))"
proof -
  show "collect_batch lmt batch got n = (got @ batch, n + int (length batch))"
  proof (cases lmt)
    case None
    then show ?thesis by (simp add: collect_batch_unlimited)
  next
    case (Some l)
    then show ?thesis
      using assms collect_batch_unlimited [of lmt batch got n] collect_batch_below [of n batch l got]
      by (auto simp: limit_beyond_def)
  qed
  show "\<not> limit_reached lmt (n + int (length batch))"
    using assms by (auto simp: limit_beyond_def limit_reached_def split: option.splits)
qed

lemma fetch_loop_set:
  assumes "events ex ev"
  shows "fetch_loop ex req env ev conn k pending got n = (ex, Raised QueryCancelledException)"
  using assms by (subst fetch_loop.simps) simp

lemma fetch_loop_cancelled:
  assumes "0 < fetch_size req" and "active_queries ex (query_id req) = Some ev"
    and "cancel_during env (k + 2 + d)"
    and "\<forall>i\<le>d. fetch_failure env (k + i) = None"
    and "int d * fetch_size req < int (length pending)"
    and "limit_beyond (row_limit req) (n + (int d + 1) * fetch_size req)"
  shows "snd (fetch_loop ex req env ev conn k pending got n) = Raised QueryCancelledException"
  using assms(2-6)
proof (induction d arbitrary: ex k pending got n)
  case 0
  show ?case
  proof (cases "events ex ev")
    case True
    then show ?thesis by (simp add: fetch_loop_set)
  next
    case False
    define f where "f = nat (fetch_size req)"
    define ex1 where "ex1 = other_tasks (issue ex (FetchMany conn (fetch_size req))) req env (k + 2)"
    define batch where "batch = fst (fetchmany (fetch_size req) pending)"
    define rest where "rest = snd (fetchmany (fetch_size req) pending)"
    define collected where "collected = collect_batch (row_limit req) batch got n"
    have f: "0 < f" "batch = take f pending" "rest = drop f pending" "int f = fetch_size req"
      using assms(1) by (simp_all add: f_def batch_def rest_def fetchmany_positive)
    have nonempty: "batch \<noteq> []"
      using "0.prems"(4) f by auto
    have "int (length batch) \<le> fetch_size req"
      using f by simp
    then have "limit_beyond (row_limit req) (n + int (length batch))"
      using "0.prems"(5) by (auto simp: limit_beyond_def split: option.splits)
    then have go: "\<not> limit_reached (row_limit req) (snd collected)"
      using collect_batch_beyond(1) [of "row_limit req" n batch got]
        collect_batch_beyond(2) [of "row_limit req" n batch]
      by (simp add: collected_def)
    have "events ex1 ev"
      using "0.prems"(1,2) by (simp add: ex1_def events_other_tasks)
    then have "snd (fetch_loop ex1 req env ev conn (Suc k) rest (fst collected) (snd collected))
        = Raised QueryCancelledException"
      by (simp add: fetch_loop_set)
    moreover have "fetch_loop ex req env ev conn k pending got n
        = fetch_loop ex1 req env ev conn (Suc k) rest (fst collected) (snd collected)"
      using False "0.prems"(3) nonempty go
      by (subst fetch_loop.simps)
         (simp add: Let_def ex1_def batch_def rest_def collected_def)
    ultimately show ?thesis by simp
  qed
next
  case (Suc d)
  show ?case
  proof (cases "events ex ev")
    case True
    then show ?thesis by (simp add: fetch_loop_set)
  next
    case False
    define f where "f = nat (fetch_size req)"
    define ex1 where "ex1 = other_tasks (issue ex (FetchMany conn (fetch_size req))) req env (k + 2)"
    define batch where "batch = fst (fetchmany (fetch_size req) pending)"
    define rest where "rest = snd (fetchmany (fetch_size req) pending)"
    define collected where "collected = collect_batch (row_limit req) batch got n"
    have f: "0 < f" "batch = take f pending" "rest = drop f pending" "int f = fetch_size req"
      using assms(1) by (simp_all add: f_def batch_def rest_def fetchmany_positive)
    have long: "int (Suc d) * int f < int (length pending)"
      using Suc.prems(4) f(4) by simp
    have "0 \<le> int d * int f"
      by simp
    then have "int f \<le> int (Suc d) * int f"
      by (simp add: algebra_simps)
    then have "f < length pending"
      using long by linarith
    then have len: "length batch = f" "int (length rest) = int (length pending) - int f"
      using f by simp_all
    then have nonempty: "batch \<noteq> []"
      using f(1) by auto
    have "0 \<le> (int d + 1) * int f"
      by simp
    then have "fetch_size req \<le> (int (Suc d) + 1) * fetch_size req"
      using f(4) by (simp add: algebra_simps)
    then have "limit_beyond (row_limit req) (n + int (length batch))"
      using Suc.prems(5) len(1) f(4) by (auto simp: limit_beyond_def split: option.splits)
    then have col: "collected = (got @ batch, n + int (length batch))"
      and go: "\<not> limit_reached (row_limit req) (snd collected)"
      using collect_batch_beyond(1) [of "row_limit req" n batch got]
        collect_batch_beyond(2) [of "row_limit req" n batch]
      by (simp_all add: collected_def)
    have none: "fetch_failure env k = None"
      using Suc.prems(3) by (metis add.right_neutral le0)
    have step: "fetch_loop ex req env ev conn k pending got n
        = fetch_loop ex1 req env ev conn (Suc k) rest (fst collected) (snd collected)"
      using False none nonempty go
      by (subst fetch_loop.simps)
         (simp add: Let_def ex1_def batch_def rest_def collected_def)
    have 1: "active_queries ex1 (query_id req) = Some ev"
      using Suc.prems(1) by (simp add: ex1_def)
    have 2: "cancel_during env (Suc k + 2 + d)"
      using Suc.prems(2) by simp
    have 3: "\<forall>i\<le>d. fetch_failure env (Suc k + i) = None"
      using Suc.prems(3) by (metis Suc_le_mono add_Suc_shift)
    have "int d * int f + int f < int (length pending)"
      using long by (simp add: algebra_simps)
    then have 4: "int d * fetch_size req < int (length rest)"
      using len(2) f(4) by simp
    have "(n + int (length batch)) + (int d + 1) * fetch_size req
        = n + (int (Suc d) + 1) * fetch_size req"
      using len(1) f(4) by (simp add: algebra_simps)
    then have "limit_beyond (row_limit req) ((n + int (length batch)) + (int d + 1) * fetch_size req)"
      using Suc.prems(5) by (simp only:)
    then have 5: "limit_beyond (row_limit req) (snd collected + (int d + 1) * fetch_size req)"
      by (simp add: col)
    show ?thesis
      using step Suc.IH [OF 1 2 3 4 5] by simp
  qed
qed

lemma loop_entry_registered:
  "active_queries (loop_entry ex req env conn) (query_id req) = Some (next_event ex)"
  "events (loop_entry ex req env conn) (next_event ex) = (cancel_during env 0 \<or> cancel_during env 1)"
  by (auto simp: loop_entry_def events_other_tasks register_query_def Let_def)

lemma release_wrapper_returns:
  "snd (release_wrapper p w now None None) = Returned ()"
  by (simp add: release_wrapper_def create_connection_def Let_def)

lemma begin_isolation_ok:
  "begin_failure env = None \<Longrightarrow> snd (begin_isolation ex req env conn) = None"
  by (simp add: begin_isolation_def split: option.splits)

lemma run_query_set:
  "events ex ev \<Longrightarrow> snd (run_query ex req env ev conn qt ws) = Raised QueryCancelledException"
  by (simp add: run_query_def)

lemma run_query_select:
  assumes "\<not> events ex ev" and "begin_failure env = None" and "execute_outcome env = Inr cur"
  shows "snd (run_query ex req env ev conn SELECT (validate_security (sql req) False)) =
     (case snd (fetch_loop
                  (issue (fst (begin_isolation (other_tasks ex req env 1) req env conn))
                     (Execute conn (sql req) (params req)))
                  req env ev conn 0 (result_rows cur) [] 0) of
        Returned (got, n) \<Rightarrow> Returned (select_result req env cur got n)
      | Raised e \<Rightarrow> Raised e
      | Blocked \<Rightarrow> Blocked)"
proof -
  define ex2 where
    "ex2 = issue (fst (begin_isolation (other_tasks ex req env 1) req env conn))
             (Execute conn (sql req) (params req))"
  obtain ex3 out where l: "fetch_loop ex2 req env ev conn 0 (result_rows cur) [] 0 = (ex3, out)"
    by (cases "fetch_loop ex2 req env ev conn 0 (result_rows cur) [] 0")
  have sb: "snd (select_branch ex2 req env ev conn SELECT (validate_security (sql req) False) cur)
      = (case out of
           Returned (got, n) \<Rightarrow> Returned (select_result req env cur got n)
         | Raised e \<Rightarrow> Raised e
         | Blocked \<Rightarrow> Blocked)"
    using l by (cases out) (auto simp: select_branch_def select_result_def Let_def)
  have "snd (run_query ex req env ev conn SELECT (validate_security (sql req) False))
      = snd (select_branch ex2 req env ev conn SELECT (validate_security (sql req) False) cur)"
    using assms begin_isolation_ok [OF assms(2), of "other_tasks ex req env 1" req conn]
    by (cases "select_branch ex2 req env ev conn SELECT (validate_security (sql req) False) cur")
       (auto simp: run_query_def Let_def ex2_def split: outcome.splits)
  then show ?thesis
    using sb l by (simp add: ex2_def)
qed

lemma with_connection_released:
  assumes "snd (acquisition ex req env) = Returned conn"
    and "release_close_failure env = None" and "release_create_failure env = None"
  shows "snd (with_connection ex req env ev qt ws)
           = snd (run_query (ex\<lparr>executor_pool := fst (acquisition ex req env)\<rparr>) req env ev conn qt ws)"
  using assms
  by (simp add: with_connection_def acquisition_def Let_def release_wrapper_returns)

lemma execute_passing:
  assumes "passes_read_only_check req"
  shows "snd (execute ex req env) =
     (case snd (with_connection (other_tasks (fst (register_query ex req)) req env 0) req env
                  (next_event ex) (determine_type (sql req)) (validate_security (sql req) False)) of
        Returned r \<Rightarrow> Returned r
      | Raised e \<Rightarrow> if is_Exception e then Returned (handle_exception req env e) else Raised e
      | Blocked \<Rightarrow> Blocked)"
proof -
  define reg where "reg = register_query ex req"
  have ev: "snd reg = next_event ex"
    by (simp add: reg_def register_query_def Let_def)
  define w where "w = with_connection (other_tasks (fst reg) req env 0) req env
                  (next_event ex) (determine_type (sql req)) (validate_security (sql req) False)"
  have "execute_try (fst reg) req env (snd reg) = w"
    using assms by (auto simp: execute_try_def Let_def passes_read_only_check_def w_def ev)
  then show ?thesis
    by (cases w; cases "snd w")
       (auto simp: execute_def Let_def reg_def [symmetric] w_def [symmetric])
qed

lemma select_passes: "determine_type (sql req) = SELECT \<Longrightarrow> passes_read_only_check req"
  by (simp add: passes_read_only_check_def is_read_only_def)

lemma execute_select:
  assumes "determine_type (sql req) = SELECT" and "snd (acquisition ex req env) = Returned conn"
    and "begin_failure env = None" and "execute_outcome env = Inr cur"
    and "release_close_failure env = None" and "release_create_failure env = None"
  shows "snd (execute ex req env) =
     (if cancel_during env 0 then Returned (handle_exception req env QueryCancelledException)
      else case snd (fetch_loop (loop_entry ex req env conn) req env (next_event ex) conn 0
                       (result_rows cur) [] 0) of
             Returned (got, n) \<Rightarrow> Returned (select_result req env cur got n)
           | Raised e \<Rightarrow> if is_Exception e then Returned (handle_exception req env e) else Raised e
           | Blocked \<Rightarrow> Blocked)"
proof -
  define ex0 where "ex0 = other_tasks (fst (register_query ex req)) req env 0"
  define ex1 where "ex1 = ex0\<lparr>executor_pool := fst (acquisition ex req env)\<rparr>"
  have acq: "acquisition ex0 req env = acquisition ex req env"
    by (simp add: ex0_def acquisition_def register_query_def Let_def)
  have ev: "events ex1 (next_event ex) = cancel_during env 0"
    by (simp add: ex1_def ex0_def events_other_tasks register_query_def Let_def)
  have w: "snd (with_connection ex0 req env (next_event ex) SELECT (validate_security (sql req) False))
      = snd (run_query ex1 req env (next_event ex) conn SELECT (validate_security (sql req) False))"
    using with_connection_released [of ex0 req env conn] assms(2,5,6) acq
    by (simp add: ex1_def)
  have e: "snd (execute ex req env) =
     (case snd (run_query ex1 req env (next_event ex) conn SELECT (validate_security (sql req) False)) of
        Returned r \<Rightarrow> Returned r
      | Raised e \<Rightarrow> if is_Exception e then Returned (handle_exception req env e) else Raised e
      | Blocked \<Rightarrow> Blocked)"
    using execute_passing [OF select_passes [OF assms(1)], of ex env] w assms(1)
    by (simp add: ex0_def)
  show ?thesis
  proof (cases "cancel_during env 0")
    case True
    then show ?thesis
      using e ev by (simp add: run_query_set)
  next
    case False
    have "loop_entry ex req env conn
        = issue (fst (begin_isolation (other_tasks ex1 req env 1) req env conn))
            (Execute conn (sql req) (params req))"
      by (simp add: loop_entry_def ex1_def ex0_def)
    then show ?thesis
      using False e ev run_query_select [of ex1 "next_event ex" env cur req conn] assms(3,4)
      by (auto split: outcome.splits)
  qed
qed

lemma length_take_limit: "0 < l \<Longrightarrow> int (length (take (nat l) xs)) = min l (int (length xs))"
  by (auto simp: min_def)

lemma execute_row_limit:
  assumes "determine_type (sql req) = SELECT" and "row_limit req = Some l" and "0 < l"
    and "0 < fetch_size req" and "snd (acquisition ex req env) = Returned conn"
    and "\<forall>i. \<not> cancel_during env i" and "begin_failure env = None"
    and "execute_outcome env = Inr cur" and "\<forall>i. fetch_failure env i = None"
    and "release_close_failure env = None" and "release_create_failure env = None"
  shows "snd (execute ex req env)
           = Returned (select_result req env cur (take (nat l) (result_rows cur))
                         (min l (int (length (result_rows cur)))))"
proof -
  have quiet: "\<not> events (loop_entry ex req env conn) (next_event ex)" "\<not> cancel_during env 0"
    using assms(6) by (simp_all add: loop_entry_registered)
  have "snd (fetch_loop (loop_entry ex req env conn) req env (next_event ex) conn 0
               (result_rows cur) [] 0)
      = Returned ([] @ take (nat (l - 0)) (result_rows cur),
                  0 + min (l - 0) (int (length (result_rows cur))))"
    using assms(3) quiet(1) assms(6,9,4,2) by (rule fetch_loop_limit [OF assms(3)])
  then show ?thesis
    using execute_select [OF assms(1,5,7,8,10,11)] quiet(2) by simp
qed

lemma execute_unlimited:
  assumes "determine_type (sql req) = SELECT" and "row_limit req = None \<or> row_limit req = Some 0"
    and "0 < fetch_size req" and "snd (acquisition ex req env) = Returned conn"
    and "\<forall>i. \<not> cancel_during env i" and "begin_failure env = None"
    and "execute_outcome env = Inr cur" and "\<forall>i. fetch_failure env i = None"
    and "release_close_failure env = None" and "release_create_failure env = None"
  shows "snd (execute ex req env)
           = Returned (select_result req env cur (result_rows cur) (int (length (result_rows cur))))"
proof -
  have quiet: "\<not> events (loop_entry ex req env conn) (next_event ex)" "\<not> cancel_during env 0"
    using assms(5) by (simp_all add: loop_entry_registered)
  have "snd (fetch_loop (loop_entry ex req env conn) req env (next_event ex) conn 0
               (result_rows cur) [] 0)
      = Returned ([] @ result_rows cur, 0 + int (length (result_rows cur)))"
    using quiet(1) assms(5,8,3,2) by (rule fetch_loop_unlimited)
  then show ?thesis
    using execute_select [OF assms(1,4,6,7,9,10)] quiet(2) by simp
qed

lemma execute_cancelled:
  assumes "determine_type (sql req) = SELECT" and "0 < fetch_size req"
    and "snd (acquisition ex req env) = Returned conn"
    and "begin_failure env = None" and "execute_outcome env = Inr cur"
    and "\<forall>i\<le>j. fetch_failure env i = None" and "cancel_during env (j + 2)"
    and "int j * fetch_size req < int (length (result_rows cur))"
    and "limit_beyond (row_limit req) ((int j + 1) * fetch_size req)"
    and "release_close_failure env = None" and "release_create_failure env = None"
  shows "snd (execute ex req env) = Returned (handle_exception req env QueryCancelledException)"
proof -
  have "snd (fetch_loop (loop_entry ex req env conn) req env (next_event ex) conn 0
               (result_rows cur) [] 0) = Raised QueryCancelledException"
    using assms(6,7,8,9) loop_entry_registered(1) [of ex req env conn]
      fetch_loop_cancelled [OF assms(2), of "loop_entry ex req env conn" "next_event ex" env 0 j
        "result_rows cur" 0 conn "[]"]
    by simp
  then show ?thesis
    using execute_select [OF assms(1,3,4,5,10,11)] by simp
qed

lemma fetch_calls_simps [simp]:
  "fetch_calls [] = []"
  "fetch_calls (xs @ ys) = fetch_calls xs @ fetch_calls ys"
  "fetch_calls (FetchMany conn k # xs) = FetchMany conn k # fetch_calls xs"
  "fetch_calls (Execute conn s ps # xs) = fetch_calls xs"
  "fetch_calls (Close conn # xs) = fetch_calls xs"
  "fetch_calls (Connect conn # xs) = fetch_calls xs"
  "fetch_calls (Commit conn # xs) = fetch_calls xs"
  "fetch_calls (replicate m (FetchMany conn k)) = replicate m (FetchMany conn k)"
  by (simp_all add: fetch_calls_def)

lemma fetch_calls_setup: "fetch_calls (take m (connection_setup r)) = []"
  by (simp add: fetch_calls_def connection_setup_def take_Cons split: nat.splits)

lemma fetch_calls_setup_all: "fetch_calls (connection_setup r) = []"
  by (simp add: connection_setup_def)

lemma create_connection_fetch_calls:
  "fetch_calls (db_log (fst (create_connection p now failure))) = fetch_calls (db_log p)"
  by (auto simp: create_connection_def Let_def fetch_calls_setup fetch_calls_setup_all
      split: option.splits)

lemma release_wrapper_fetch_calls:
  "fetch_calls (db_log (fst (release_wrapper p w now close_failure create_failure)))
     = fetch_calls (db_log p)"
proof -
  have c: "fetch_calls (db_log (fst (case create_connection p' now create_failure of
               (p4, Returned new_wrapper) \<Rightarrow> (p4\<lparr>pool := pool p4 @ [new_wrapper]\<rparr>, Returned ())
             | (p4, Raised e) \<Rightarrow> (p4, Raised e)
             | (p4, Blocked) \<Rightarrow> (p4, Blocked)))) = fetch_calls (db_log p')" for p'
    using create_connection_fetch_calls [of p' now create_failure]
    by (cases "create_connection p' now create_failure") (auto split: outcome.splits)
  show ?thesis
    using c [of "(mark_available p w now)\<lparr>in_use := in_use (mark_available p w now) - {w},
                   db_log := db_log (mark_available p w now) @ [Close w]\<rparr>"]
    by (auto simp: release_wrapper_def Let_def mark_available_def split: option.splits)
qed

lemma select_branch_state:
  "fst (select_branch ex req env ev conn qt ws cur)
     = fst (fetch_loop ex req env ev conn 0 (result_rows cur) [] 0)"
  by (cases "fetch_loop ex req env ev conn 0 (result_rows cur) [] 0")
     (auto simp: select_branch_def Let_def split: outcome.splits)

lemma run_query_select_log:
  assumes "\<not> events ex ev" and "begin_failure env = None" and "execute_outcome env = Inr cur"
  shows "log_of (fst (run_query ex req env ev conn SELECT ws))
     = log_of (fst (fetch_loop
                  (issue (fst (begin_isolation (other_tasks ex req env 1) req env conn))
                     (Execute conn (sql req) (params req)))
                  req env ev conn 0 (result_rows cur) [] 0))"
proof -
  define ex2 where
    "ex2 = issue (fst (begin_isolation (other_tasks ex req env 1) req env conn))
             (Execute conn (sql req) (params req))"
  define b where "b = select_branch ex2 req env ev conn SELECT ws cur"
  have "run_query ex req env ev conn SELECT ws =
        (case b of
           (ex3, Returned result) \<Rightarrow> (record_metric ex3 SELECT env, Returned result)
         | (ex3, Raised e) \<Rightarrow> (ex3, Raised e)
         | (ex3, Blocked) \<Rightarrow> (ex3, Blocked))"
    using assms begin_isolation_ok [OF assms(2), of "other_tasks ex req env 1" req conn]
    by (simp add: run_query_def Let_def ex2_def b_def)
  then have "log_of (fst (run_query ex req env ev conn SELECT ws)) = log_of (fst b)"
    by (simp add: finish_log)
  then show ?thesis
    by (simp add: b_def select_branch_state ex2_def)
qed

lemma with_connection_fetch_calls:
  assumes "snd (acquisition ex req env) = Returned conn"
  shows "fetch_calls (log_of (fst (with_connection ex req env ev qt ws)))
     = fetch_calls (log_of (fst (run_query (ex\<lparr>executor_pool := fst (acquisition ex req env)\<rparr>)
                                    req env ev conn qt ws)))"
proof -
  define ran where
    "ran = run_query (ex\<lparr>executor_pool := fst (acquisition ex req env)\<rparr>) req env ev conn qt ws"
  define released where
    "released = release_wrapper (executor_pool (fst ran)) conn (t_release env)
                  (release_close_failure env) (release_create_failure env)"
  have "log_of (fst (with_connection ex req env ev qt ws)) = db_log (fst released)"
    using assms
    by (simp add: with_connection_def acquisition_def Let_def
        ran_def [symmetric, unfolded acquisition_def] released_def [symmetric] log_of_def
        split: outcome.splits)
  then show ?thesis
    using release_wrapper_fetch_calls [of "executor_pool (fst ran)" conn "t_release env"
        "release_close_failure env" "release_create_failure env"]
    by (simp add: released_def log_of_def ran_def)
qed

lemma loop_entry_fetch_calls:
  "fetch_calls (log_of (loop_entry ex req env conn))
     = fetch_calls (db_log (fst (acquisition ex req env)))"
  by (simp add: loop_entry_def begin_isolation_def log_of_def split: option.splits)

lemma execute_select_fetch_calls:
  assumes "determine_type (sql req) = SELECT" and "snd (acquisition ex req env) = Returned conn"
    and "\<not> cancel_during env 0" and "begin_failure env = None" and "execute_outcome env = Inr cur"
  shows "fetch_calls (log_of (fst (execute ex req env)))
     = fetch_calls (log_of (fst (fetch_loop (loop_entry ex req env conn) req env (next_event ex)
                                    conn 0 (result_rows cur) [] 0)))"
proof -
  define reg where "reg = register_query ex req"
  define ex0 where "ex0 = other_tasks (fst reg) req env 0"
  define ex1 where "ex1 = ex0\<lparr>executor_pool := fst (acquisition ex req env)\<rparr>"
  have ev: "snd reg = next_event ex"
    by (simp add: reg_def register_query_def Let_def)
  have acq: "acquisition ex0 req env = acquisition ex req env"
    by (simp add: ex0_def reg_def acquisition_def register_query_def Let_def)
  have quiet: "\<not> events ex1 (next_event ex)"
    using assms(3) by (simp add: ex1_def ex0_def reg_def events_other_tasks register_query_def Let_def)
  have "execute_try (fst reg) req env (snd reg)
      = with_connection ex0 req env (next_event ex) SELECT (validate_security (sql req) False)"
    using select_passes [OF assms(1)] assms(1)
    by (auto simp: execute_try_def Let_def passes_read_only_check_def ex0_def ev)
  then have "fetch_calls (log_of (fst (execute ex req env)))
      = fetch_calls (log_of (fst (with_connection ex0 req env (next_event ex) SELECT
                                     (validate_security (sql req) False))))"
    by (simp add: execute_log reg_def [symmetric])
  also have "\<dots> = fetch_calls (log_of (fst (run_query ex1 req env (next_event ex) conn SELECT
                                     (validate_security (sql req) False))))"
    using with_connection_fetch_calls [of ex0 req env conn] assms(2) acq
    by (simp add: ex1_def)
  also have "\<dots> = fetch_calls (log_of (fst (fetch_loop
                  (issue (fst (begin_isolation (other_tasks ex1 req env 1) req env conn))
                     (Execute conn (sql req) (params req)))
                  req env (next_event ex) conn 0 (result_rows cur) [] 0)))"
    using run_query_select_log [OF quiet assms(4,5)] by simp
  finally show ?thesis
    by (simp add: loop_entry_def ex1_def ex0_def reg_def)
qed

lemma fetch_loop_cancelled_log:
  assumes "0 < fetch_size req"
  shows "active_queries ex (query_id req) = Some ev \<Longrightarrow> \<not> events ex ev
    \<Longrightarrow> \<forall>i<d. \<not> cancel_during env (k + 2 + i) \<Longrightarrow> cancel_during env (k + 2 + d)
    \<Longrightarrow> \<forall>i\<le>d. fetch_failure env (k + i) = None
    \<Longrightarrow> int d * fetch_size req < int (length pending)
    \<Longrightarrow> limit_beyond (row_limit req) (n + (int d + 1) * fetch_size req)
    \<Longrightarrow> log_of (fst (fetch_loop ex req env ev conn k pending got n))
          = log_of ex @ replicate (Suc d) (FetchMany conn (fetch_size req))"
proof (induction d arbitrary: ex k pending got n)
  case 0
  define f where "f = nat (fetch_size req)"
  define ex1 where "ex1 = other_tasks (issue ex (FetchMany conn (fetch_size req))) req env (k + 2)"
  define batch where "batch = fst (fetchmany (fetch_size req) pending)"
  define rest where "rest = snd (fetchmany (fetch_size req) pending)"
  define collected where "collected = collect_batch (row_limit req) batch got n"
  have f: "0 < f" "batch = take f pending" "rest = drop f pending" "int f = fetch_size req"
    using assms(1) by (simp_all add: f_def batch_def rest_def fetchmany_positive)
  have nonempty: "batch \<noteq> []"
    using "0.prems"(6) f by auto
  have "int (length batch) \<le> fetch_size req"
    using f by simp
  then have "limit_beyond (row_limit req) (n + int (length batch))"
    using "0.prems"(7) by (auto simp: limit_beyond_def split: option.splits)
  then have go: "\<not> limit_reached (row_limit req) (snd collected)"
    using collect_batch_beyond(1) [of "row_limit req" n batch got]
      collect_batch_beyond(2) [of "row_limit req" n batch]
    by (simp add: collected_def)
  have "events ex1 ev"
    using "0.prems"(1,4) by (simp add: ex1_def events_other_tasks)
  then have "fetch_loop ex1 req env ev conn (Suc k) rest (fst collected) (snd collected)
      = (ex1, Raised QueryCancelledException)"
    by (simp add: fetch_loop_set)
  moreover have "fetch_loop ex req env ev conn k pending got n
      = fetch_loop ex1 req env ev conn (Suc k) rest (fst collected) (snd collected)"
    using "0.prems"(2,5) nonempty go
    by (subst fetch_loop.simps)
       (simp add: Let_def ex1_def batch_def rest_def collected_def)
  ultimately show ?case
    by (simp add: ex1_def)
next
  case (Suc d)
  define f where "f = nat (fetch_size req)"
  define ex1 where "ex1 = other_tasks (issue ex (FetchMany conn (fetch_size req))) req env (k + 2)"
  define batch where "batch = fst (fetchmany (fetch_size req) pending)"
  define rest where "rest = snd (fetchmany (fetch_size req) pending)"
  define collected where "collected = collect_batch (row_limit req) batch got n"
  have f: "0 < f" "batch = take f pending" "rest = drop f pending" "int f = fetch_size req"
    using assms(1) by (simp_all add: f_def batch_def rest_def fetchmany_positive)
  have long: "int (Suc d) * int f < int (length pending)"
    using Suc.prems(6) f(4) by simp
  have "0 \<le> int d * int f"
    by simp
  then have "int f \<le> int (Suc d) * int f"
    by (simp add: algebra_simps)
  then have "f < length pending"
    using long by linarith
  then have len: "length batch = f" "int (length rest) = int (length pending) - int f"
    using f by simp_all
  then have nonempty: "batch \<noteq> []"
    using f(1) by auto
  have "0 \<le> (int d + 1) * int f"
    by simp
  then have "fetch_size req \<le> (int (Suc d) + 1) * fetch_size req"
    using f(4) by (simp add: algebra_simps)
  then have "limit_beyond (row_limit req) (n + int (length batch))"
    using Suc.prems(7) len(1) f(4) by (auto simp: limit_beyond_def split: option.splits)
  then have col: "collected = (got @ batch, n + int (length batch))"
    and go: "\<not> limit_reached (row_limit req) (snd collected)"
    using collect_batch_beyond(1) [of "row_limit req" n batch got]
      collect_batch_beyond(2) [of "row_limit req" n batch]
    by (simp_all add: collected_def)
  have none: "fetch_failure env k = None"
    using Suc.prems(5) by (metis add.right_neutral le0)
  have step: "fetch_loop ex req env ev conn k pending got n
      = fetch_loop ex1 req env ev conn (Suc k) rest (fst collected) (snd collected)"
    using Suc.prems(2) none nonempty go
    by (subst fetch_loop.simps)
       (simp add: Let_def ex1_def batch_def rest_def collected_def)
  have 1: "active_queries ex1 (query_id req) = Some ev"
    using Suc.prems(1) by (simp add: ex1_def)
  have "\<not> cancel_during env (k + 2)"
    using Suc.prems(3) by (metis add.right_neutral zero_less_Suc)
  then have 2: "\<not> events ex1 ev"
    using Suc.prems(2) by (simp add: ex1_def events_other_tasks)
  have 3: "\<forall>i<d. \<not> cancel_during env (Suc k + 2 + i)"
  proof (intro allI impI)
    fix i assume "i < d"
    then have "Suc i < Suc d"
      by simp
    then have "\<not> cancel_during env (k + 2 + Suc i)"
      using Suc.prems(3) by blast
    then show "\<not> cancel_during env (Suc k + 2 + i)"
      by simp
  qed
  have 4: "cancel_during env (Suc k + 2 + d)"
    using Suc.prems(4) by simp
  have 5: "\<forall>i\<le>d. fetch_failure env (Suc k + i) = None"
    using Suc.prems(5) by (metis Suc_le_mono add_Suc_shift)
  have "int d * int f + int f < int (length pending)"
    using long by (simp add: algebra_simps)
  then have 6: "int d * fetch_size req < int (length rest)"
    using len(2) f(4) by simp
  have "(n + int (length batch)) + (int d + 1) * fetch_size req
      = n + (int (Suc d) + 1) * fetch_size req"
    using len(1) f(4) by (simp add: algebra_simps)
  then have "limit_beyond (row_limit req) ((n + int (length batch)) + (int d + 1) * fetch_size req)"
    using Suc.prems(7) by (simp only:)
  then have 7: "limit_beyond (row_limit req) (snd collected + (int d + 1) * fetch_size req)"
    by (simp add: col)
  have "log_of (fst (fetch_loop ex1 req env ev conn (Suc k) rest (fst collected) (snd collected)))
      = log_of ex1 @ replicate (Suc d) (FetchMany conn (fetch_size req))"
    using Suc.IH [OF 1 2 3 4 5 6 7] .
  moreover have "log_of ex1 = log_of ex @ [FetchMany conn (fetch_size req)]"
    by (simp add: ex1_def)
  ultimately show ?case
    using step by (simp add: replicate_append_same)
qed

lemma execute_cancelled_fetches:
  assumes "determine_type (sql req) = SELECT" and "0 < fetch_size req"
    and "snd (acquisition ex req env) = Returned conn"
    and "begin_failure env = None" and "execute_outcome env = Inr cur"
    and "\<forall>i\<le>j. fetch_failure env i = None" and "cancel_during env (j + 2)"
    and "int j * fetch_size req < int (length (result_rows cur))"
    and "limit_beyond (row_limit req) ((int j + 1) * fetch_size req)"
    and "\<forall>i<j + 2. \<not> cancel_during env i"
  shows "fetch_calls (db_log (executor_pool (fst (execute ex req env))))
     = fetch_calls (db_log (fst (acquisition ex req env)))
         @ replicate (Suc j) (FetchMany conn (fetch_size req))"
proof -
  have quiet: "\<not> cancel_during env 0" "\<not> cancel_during env 1"
    using assms(10) by simp_all
  have later: "\<forall>i<j. \<not> cancel_during env (0 + 2 + i)"
    using assms(10) by simp
  have "log_of (fst (fetch_loop (loop_entry ex req env conn) req env (next_event ex) conn 0
               (result_rows cur) [] 0))
      = log_of (loop_entry ex req env conn) @ replicate (Suc j) (FetchMany conn (fetch_size req))"
    using fetch_loop_cancelled_log [OF assms(2), of "loop_entry ex req env conn" "next_event ex"
        j env 0 "result_rows cur" 0 conn "[]"]
      loop_entry_registered [of ex req env conn] quiet later assms(6,7,8,9)
    by simp
  then show ?thesis
    using execute_select_fetch_calls [OF assms(1,3) quiet(1) assms(4,5)]
    by (simp add: loop_entry_fetch_calls [unfolded log_of_def] log_of_def)
qed

lemma example_acquisition_fetch_calls:
  "fetch_calls (db_log (fst (acquisition example_executor req ((quiet_env cur)\<lparr>cancel_during := c\<rparr>)))) = []"
  by (simp add: acquisition_def example_executor_def quiet_env_def new_QueryExecutor_def
      new_ConnectionPool_def acquire_wrapper_def acquire_attempt_def create_connection_def
      mark_in_use_def Let_def fetch_calls_setup_all)

text \<open>
  Claim C4, for a positive row limit. For a SELECT with \<^verbatim>\<open>row_limit\<close> \<open>l > 0\<close> and a positive
  \<^verbatim>\<open>fetch_size\<close>, on a connection that is acquired and released without failure, with no
  driver call failing and nobody cancelling, \<^verbatim>\<open>execute\<close> returns a result with status
  SUCCESS whose rows are the first \<open>l\<close> rows of the result set (all of them when there are
  fewer), \<^verbatim>\<open>row_count\<close> being the minimum of \<open>l\<close> and the number of rows of the result
  set, and the length of the row list.
\<close>

theorem row_limit_stops_collection:
  "determine_type (sql req) = SELECT \<and> row_limit req = Some l \<and> 0 < l \<and> 0 < fetch_size req
   \<and> snd (acquisition ex req env) = Returned conn \<and> (\<forall>i. \<not> cancel_during env i)
   \<and> begin_failure env = None \<and> execute_outcome env = Inr cur
   \<and> (\<forall>i. fetch_failure env i = None)
   \<and> release_close_failure env = None \<and> release_create_failure env = None \<longrightarrow>
   (\<exists>r. snd (execute ex req env) = Returned r \<and> status r = SUCCESS
        \<and> rows r = take (nat l) (result_rows cur)
        \<and> row_count r = min l (int (length (result_rows cur)))
        \<and> int (length (rows r)) = row_count r)"
proof
  assume a: "determine_type (sql req) = SELECT \<and> row_limit req = Some l \<and> 0 < l \<and> 0 < fetch_size req
   \<and> snd (acquisition ex req env) = Returned conn \<and> (\<forall>i. \<not> cancel_during env i)
   \<and> begin_failure env = None \<and> execute_outcome env = Inr cur
   \<and> (\<forall>i. fetch_failure env i = None)
   \<and> release_close_failure env = None \<and> release_create_failure env = None"
  then have "snd (execute ex req env)
           = Returned (select_result req env cur (take (nat l) (result_rows cur))
                         (min l (int (length (result_rows cur)))))"
    using execute_row_limit [of req l ex env conn cur] by blast
  moreover have "int (length (take (nat l) (result_rows cur))) = min l (int (length (result_rows cur)))"
    using a length_take_limit [of l "result_rows cur"] by blast
  ultimately show "\<exists>r. snd (execute ex req env) = Returned r \<and> status r = SUCCESS
        \<and> rows r = take (nat l) (result_rows cur)
        \<and> row_count r = min l (int (length (result_rows cur)))
        \<and> int (length (rows r)) = row_count r"
    by (simp add: select_result_def)
qed

theorem row_limit_stops_collection_witness:
  "\<exists>r. snd (execute example_executor (example_select\<lparr>row_limit := Some 5\<rparr>)
              (quiet_env (example_cursor 100))) = Returned r
       \<and> status r = SUCCESS \<and> row_count r = 5 \<and> length (rows r) = 5"
proof -
  have h: "determine_type (sql (example_select\<lparr>row_limit := Some 5\<rparr>)) = SELECT"
    "row_limit (example_select\<lparr>row_limit := Some 5\<rparr>) = Some 5"
    "0 < fetch_size (example_select\<lparr>row_limit := Some 5\<rparr>)"
    "snd (acquisition example_executor (example_select\<lparr>row_limit := Some 5\<rparr>)
            (quiet_env (example_cursor 100))) = Returned 0"
    "\<forall>i. \<not> cancel_during (quiet_env (example_cursor 100)) i"
    "begin_failure (quiet_env (example_cursor 100)) = None"
    "execute_outcome (quiet_env (example_cursor 100)) = Inr (example_cursor 100)"
    "\<forall>i. fetch_failure (quiet_env (example_cursor 100)) i = None"
    "release_close_failure (quiet_env (example_cursor 100)) = None"
    "release_create_failure (quiet_env (example_cursor 100)) = None"
    by (simp_all add: example_select_fields determine_type_select example_acquisition quiet_env_fields)
  show ?thesis
    using h row_limit_stops_collection [of "example_select\<lparr>row_limit := Some 5\<rparr>" 5
        example_executor "quiet_env (example_cursor 100)" 0 "example_cursor 100"]
    by (auto simp: example_cursor_length)
qed

text \<open>
  A row limit of 0 is no limit: \<^verbatim>\<open>request.row_limit and ...\<close> is false for 0, so every
  row is collected, where the minimum of the limit and the number of rows is 0.
\<close>

theorem row_limit_zero_counterexample:
  "map_outcome row_count
     (snd (execute example_executor (example_select\<lparr>row_limit := Some 0\<rparr>)
             (quiet_env (example_cursor 2)))) = Returned 2
   \<and> map_outcome (\<lambda>r. length (rows r))
     (snd (execute example_executor (example_select\<lparr>row_limit := Some 0\<rparr>)
             (quiet_env (example_cursor 2)))) = Returned 2
   \<and> min 0 (int (length (result_rows (example_cursor 2)))) = 0"
proof -
  have h: "determine_type (sql (example_select\<lparr>row_limit := Some 0\<rparr>)) = SELECT"
    "row_limit (example_select\<lparr>row_limit := Some 0\<rparr>) = None
       \<or> row_limit (example_select\<lparr>row_limit := Some 0\<rparr>) = Some 0"
    "0 < fetch_size (example_select\<lparr>row_limit := Some 0\<rparr>)"
    "snd (acquisition example_executor (example_select\<lparr>row_limit := Some 0\<rparr>)
            (quiet_env (example_cursor 2))) = Returned 0"
    "\<forall>i. \<not> cancel_during (quiet_env (example_cursor 2)) i"
    "begin_failure (quiet_env (example_cursor 2)) = None"
    "execute_outcome (quiet_env (example_cursor 2)) = Inr (example_cursor 2)"
    "\<forall>i. fetch_failure (quiet_env (example_cursor 2)) i = None"
    "release_close_failure (quiet_env (example_cursor 2)) = None"
    "release_create_failure (quiet_env (example_cursor 2)) = None"
    by (simp_all add: example_select_fields determine_type_select example_acquisition quiet_env_fields)
  show ?thesis
    using execute_unlimited [OF h]
    by (simp add: select_result_def example_cursor_length)
qed

text \<open>
  Claim C5, with the rows that the code returns. A cancellation that arrives while the
  fetch of batch \<open>j\<close> of a SELECT is awaited (batches 0 to \<open>j\<close> being fetched without
  failure and non-empty, and the row limit not reached by them) is seen at the check that
  opens the next round of the loop, and \<^verbatim>\<open>execute\<close> returns a result with status
  CANCELLED and the error \<^verbatim>\<open>Query was cancelled\<close>; its row list is empty and its
  \<^verbatim>\<open>row_count\<close> is 0, the rows fetched so far being dropped with the exception. When
  no cancellation arrived earlier, the call has made exactly \<open>j + 1\<close> \<^verbatim>\<open>fetchmany\<close>
  calls: the fetch under way is completed and no further one is issued.
\<close>

theorem cancelled_select_discards_rows:
  "determine_type (sql req) = SELECT \<and> 0 < fetch_size req
   \<and> snd (acquisition ex req env) = Returned conn
   \<and> begin_failure env = None \<and> execute_outcome env = Inr cur
   \<and> (\<forall>i\<le>j. fetch_failure env i = None) \<and> cancel_during env (j + 2)
   \<and> int j * fetch_size req < int (length (result_rows cur))
   \<and> (case row_limit req of None \<Rightarrow> True
       | Some l \<Rightarrow> l = 0 \<or> (int j + 1) * fetch_size req < l)
   \<and> release_close_failure env = None \<and> release_create_failure env = None \<longrightarrow>
   (\<exists>r. snd (execute ex req env) = Returned r \<and> status r = CANCELLED
        \<and> rows r = [] \<and> row_count r = 0 \<and> error r = Some ''Query was cancelled'')
   \<and> ((\<forall>i<j + 2. \<not> cancel_during env i) \<longrightarrow>
        fetch_calls (db_log (executor_pool (fst (execute ex req env))))
          = fetch_calls (db_log (fst (acquisition ex req env)))
              @ replicate (Suc j) (FetchMany conn (fetch_size req)))"
  using execute_cancelled [of req ex env conn cur j]
    execute_cancelled_fetches [of req ex env conn cur j]
  by (simp add: limit_beyond_def)

theorem cancelled_select_discards_rows_witness:
  "(\<exists>r. snd (execute example_executor (example_select\<lparr>fetch_size := 1\<rparr>)
              ((quiet_env (example_cursor 3))\<lparr>cancel_during := (\<lambda>i. i = 2)\<rparr>)) = Returned r
       \<and> status r = CANCELLED \<and> rows r = [] \<and> row_count r = 0
       \<and> error r = Some ''Query was cancelled'')
   \<and> fetch_calls (db_log (executor_pool (fst (execute example_executor
         (example_select\<lparr>fetch_size := 1\<rparr>)
         ((quiet_env (example_cursor 3))\<lparr>cancel_during := (\<lambda>i. i = 2)\<rparr>)))))
       = [FetchMany 0 1]"
proof -
  have h: "determine_type (sql (example_select\<lparr>fetch_size := 1\<rparr>)) = SELECT"
    "0 < fetch_size (example_select\<lparr>fetch_size := 1\<rparr>)"
    "snd (acquisition example_executor (example_select\<lparr>fetch_size := 1\<rparr>)
            ((quiet_env (example_cursor 3))\<lparr>cancel_during := (\<lambda>i. i = 2)\<rparr>)) = Returned 0"
    "begin_failure ((quiet_env (example_cursor 3))\<lparr>cancel_during := (\<lambda>i. i = 2)\<rparr>) = None"
    "execute_outcome ((quiet_env (example_cursor 3))\<lparr>cancel_during := (\<lambda>i. i = 2)\<rparr>)
       = Inr (example_cursor 3)"
    "\<forall>i\<le>0. fetch_failure ((quiet_env (example_cursor 3))\<lparr>cancel_during := (\<lambda>i. i = 2)\<rparr>) i = None"
    "cancel_during ((quiet_env (example_cursor 3))\<lparr>cancel_during := (\<lambda>i. i = 2)\<rparr>) (0 + 2)"
    "int 0 * fetch_size (example_select\<lparr>fetch_size := 1\<rparr>)
       < int (length (result_rows (example_cursor 3)))"
    "(case row_limit (example_select\<lparr>fetch_size := 1\<rparr>) of None \<Rightarrow> True
       | Some l \<Rightarrow> l = 0 \<or> (int 0 + 1) * fetch_size (example_select\<lparr>fetch_size := 1\<rparr>) < l)"
    "release_close_failure ((quiet_env (example_cursor 3))\<lparr>cancel_during := (\<lambda>i. i = 2)\<rparr>) = None"
    "release_create_failure ((quiet_env (example_cursor 3))\<lparr>cancel_during := (\<lambda>i. i = 2)\<rparr>) = None"
    by (simp_all add: example_select_fields determine_type_select example_acquisition_cancel quiet_env_fields
        example_cursor_length)
  have quiet: "\<forall>i<0 + 2. \<not> cancel_during ((quiet_env (example_cursor 3))\<lparr>cancel_during := (\<lambda>i. i = 2)\<rparr>) i"
    by simp
  have calls: "fetch_calls (db_log (fst (acquisition example_executor (example_select\<lparr>fetch_size := 1\<rparr>)
                  ((quiet_env (example_cursor 3))\<lparr>cancel_during := (\<lambda>i. i = 2)\<rparr>))))
         @ replicate (Suc 0) (FetchMany 0 (fetch_size (example_select\<lparr>fetch_size := 1\<rparr>)))
       = [FetchMany 0 1]"
    by (simp add: example_acquisition_fetch_calls)
  note both = cancelled_select_discards_rows [of "example_select\<lparr>fetch_size := 1\<rparr>" example_executor
        "(quiet_env (example_cursor 3))\<lparr>cancel_during := (\<lambda>i. i = 2)\<rparr>" 0 "example_cursor 3" 0,
        THEN mp, OF conjI [OF h(1) conjI [OF h(2) conjI [OF h(3) conjI [OF h(4) conjI [OF h(5)
          conjI [OF h(6) conjI [OF h(7) conjI [OF h(8) conjI [OF h(9) conjI [OF h(10) h(11)]]]]]]]]]]]
  show ?thesis
    using both [THEN conjunct1] both [THEN conjunct2, THEN mp, OF quiet] calls
    by (simp only:)
qed

text \<open>
  Three rows fetched one at a time, cancelled during the first fetch: the first batch is
  not empty, the result is CANCELLED and has no rows.
\<close>

theorem cancelled_rows_counterexample:
  "map_outcome status
     (snd (execute example_executor (example_select\<lparr>fetch_size := 1\<rparr>)
             ((quiet_env (example_cursor 3))\<lparr>cancel_during := (\<lambda>i. i = 2)\<rparr>)))
     = Returned CANCELLED
   \<and> map_outcome rows
     (snd (execute example_executor (example_select\<lparr>fetch_size := 1\<rparr>)
             ((quiet_env (example_cursor 3))\<lparr>cancel_during := (\<lambda>i. i = 2)\<rparr>)))
     = Returned []
   \<and> fst (fetchmany 1 (result_rows (example_cursor 3))) \<noteq> []"
proof -
  have h: "determine_type (sql (example_select\<lparr>fetch_size := 1\<rparr>)) = SELECT"
    "0 < fetch_size (example_select\<lparr>fetch_size := 1\<rparr>)"
    "snd (acquisition example_executor (example_select\<lparr>fetch_size := 1\<rparr>)
            ((quiet_env (example_cursor 3))\<lparr>cancel_during := (\<lambda>i. i = 2)\<rparr>)) = Returned 0"
    "begin_failure ((quiet_env (example_cursor 3))\<lparr>cancel_during := (\<lambda>i. i = 2)\<rparr>) = None"
    "execute_outcome ((quiet_env (example_cursor 3))\<lparr>cancel_during := (\<lambda>i. i = 2)\<rparr>)
       = Inr (example_cursor 3)"
    "\<forall>i\<le>0. fetch_failure ((quiet_env (example_cursor 3))\<lparr>cancel_during := (\<lambda>i. i = 2)\<rparr>) i = None"
    "cancel_during ((quiet_env (example_cursor 3))\<lparr>cancel_during := (\<lambda>i. i = 2)\<rparr>) (0 + 2)"
    "int 0 * fetch_size (example_select\<lparr>fetch_size := 1\<rparr>)
       < int (length (result_rows (example_cursor 3)))"
    "limit_beyond (row_limit (example_select\<lparr>fetch_size := 1\<rparr>))
       ((int 0 + 1) * fetch_size (example_select\<lparr>fetch_size := 1\<rparr>))"
    "release_close_failure ((quiet_env (example_cursor 3))\<lparr>cancel_during := (\<lambda>i. i = 2)\<rparr>) = None"
    "release_create_failure ((quiet_env (example_cursor 3))\<lparr>cancel_during := (\<lambda>i. i = 2)\<rparr>) = None"
    by (simp_all add: example_select_fields determine_type_select example_acquisition_cancel quiet_env_fields
        example_cursor_length limit_beyond_def)
  have "fst (fetchmany 1 (result_rows (example_cursor 3))) \<noteq> []"
    by (simp add: fetchmany_positive example_cursor_def upt_rec)
  then show ?thesis
    using execute_cancelled [OF h] by simp
qed

section \<open>Every failure is a result\<close>







end
